theory Spec2Isabelle
  imports Main "HOL-Library.Sublist"
begin

section \<open>Text, characters and the regular-expression library\<close>

text \<open>
  The program is \<^verbatim>\<open>python/bootstrap.py\<close>: it concatenates four C headers and rewrites
  their declarations into a Cython \<^verbatim>\<open>.pxd\<close> file with regular expressions. A Python
  \<^verbatim>\<open>str\<close> is modelled as a \<open>string\<close>, one \<open>char\<close> for each code point below 256 (the
  headers are ASCII). Everything the program does to text goes through Python's
  \<^verbatim>\<open>re\<close> module, so the embedding starts with a model of the part of \<^verbatim>\<open>re\<close> the program
  uses: literals, character classes under \<^verbatim>\<open>*\<close> and \<^verbatim>\<open>+\<close>, sequence, alternation, the greedy
  \<^verbatim>\<open>?\<close> and capture groups.
\<close>

definition newline :: char where
  "newline = CHR 0x0A"

definition dquote :: char where
  "dquote = CHR 0x22"

type_synonym cls = "char \<Rightarrow> bool"

definition in_range :: "nat \<Rightarrow> nat \<Rightarrow> cls" where
  "in_range lo hi c = (lo \<le> of_char c \<and> (of_char c :: nat) \<le> hi)"

text \<open>\<^verbatim>\<open>\s\<close> on a \<^verbatim>\<open>str\<close> pattern and \<^verbatim>\<open>str.strip()\<close> use the same test, \<^verbatim>\<open>str.isspace\<close>:
  below 256 these are the code points 9 to 13, 28 to 32, 133 and 160.\<close>

definition is_space :: cls where
  "is_space c = (in_range 9 13 c \<or> in_range 28 32 c \<or> of_char c = (133::nat) \<or> of_char c = (160::nat))"

definition is_upper :: cls where
  "is_upper c = in_range 65 90 c"

definition is_lower :: cls where
  "is_lower c = in_range 97 122 c"

definition is_digit :: cls where
  "is_digit c = in_range 48 57 c"

text \<open>\<^verbatim>\<open>[A-Za-z]\<close>, \<^verbatim>\<open>[A-Za-z0-9]\<close> and \<^verbatim>\<open>[A-Za-z0-9_*]\<close>.\<close>

definition is_alpha :: cls where
  "is_alpha c = (is_upper c \<or> is_lower c)"

definition is_alnum :: cls where
  "is_alnum c = (is_alpha c \<or> is_digit c)"

definition is_ctype_char :: cls where
  "is_ctype_char c = (is_alnum c \<or> c = CHR ''_'' \<or> c = CHR ''*'')"

text \<open>A negated class \<^verbatim>\<open>[^x]\<close> matches every character but \<open>x\<close>, the newline included;
  the dot matches every character but the newline (no \<^verbatim>\<open>DOTALL\<close> flag is used).\<close>

definition not_chr :: "char \<Rightarrow> cls" where
  "not_chr x c = (c \<noteq> x)"

definition dot :: cls where
  "dot = not_chr newline"

datatype regex =
    Lit string
  | Star cls
  | Plus cls
  | Seq regex regex
  | Alt regex regex
  | Opt regex
  | Group nat regex

fun cat :: "regex list \<Rightarrow> regex" where
  "cat [] = Lit []"
| "cat [r] = r"
| "cat (r # rs) = Seq r (cat rs)"

type_synonym groups = "nat \<Rightarrow> string option"

text \<open>\<open>greedy p s\<close>: the ways a class repeated with \<^verbatim>\<open>*\<close> can consume a prefix of \<open>s\<close>, as
  (matched, rest), the longest first: the order in which a backtracking matcher gives
  characters back.\<close>

fun greedy :: "cls \<Rightarrow> string \<Rightarrow> (string \<times> string) list" where
  "greedy p [] = [([], [])]"
| "greedy p (c # cs) =
     (if p c then map (\<lambda>(m, r). (c # m, r)) (greedy p cs) @ [([], c # cs)]
      else [([], c # cs)])"

text \<open>\<open>run r g s\<close>: every way \<open>r\<close> matches a prefix of \<open>s\<close> starting from the group table
  \<open>g\<close>, as (matched, rest, groups), in the order Python's backtracking matcher explores
  them. The match \<^verbatim>\<open>re\<close> reports is the first.\<close>

primrec run :: "regex \<Rightarrow> groups \<Rightarrow> string \<Rightarrow> (string \<times> string \<times> groups) list" where
  "run (Lit w) g s = (if prefix w s then [(w, drop (length w) s, g)] else [])"
| "run (Star p) g s = map (\<lambda>(m, r). (m, r, g)) (greedy p s)"
| "run (Plus p) g s = map (\<lambda>(m, r). (m, r, g)) (filter (\<lambda>(m, r). m \<noteq> []) (greedy p s))"
| "run (Seq a b) g s =
     concat (map (\<lambda>(m1, r1, g1). map (\<lambda>(m2, r2, g2). (m1 @ m2, r2, g2)) (run b g1 r1))
                 (run a g s))"
| "run (Alt a b) g s = run a g s @ run b g s"
| "run (Opt a) g s = run a g s @ [([], s, g)]"
| "run (Group n a) g s = map (\<lambda>(m, r, g'). (m, r, g'(n \<mapsto> m))) (run a g s)"

definition no_groups :: groups where
  "no_groups = (\<lambda>n. None)"

text \<open>\<^verbatim>\<open>pattern.match(s)\<close> at the start of \<open>s\<close>: the matched text and the groups. None of the
  program's patterns has an anchor or a look-around, so a match at a position depends
  only on the text from that position on.\<close>

definition match_at :: "regex \<Rightarrow> string \<Rightarrow> (string \<times> groups) option" where
  "match_at r s = (case run r no_groups s of [] \<Rightarrow> None | (m, rest, g) # alts \<Rightarrow> Some (m, g))"

record rmatch =
  m_start :: nat
  m_end :: nat
  m_groups :: groups

text \<open>\<^verbatim>\<open>pattern.finditer(s)\<close>: the non-overlapping matches from left to right; the scan
  resumes where a match ended. None of the program's patterns matches the empty string
  (lemma \<open>patterns_never_match_empty\<close> below), so the model gives a zero-length match no
  special treatment: it steps over it as over a position with no match.\<close>

function finditer_from :: "regex \<Rightarrow> nat \<Rightarrow> string \<Rightarrow> rmatch list" where
  "finditer_from r pos [] = []"
| "finditer_from r pos (c # cs) =
     (case match_at r (c # cs) of
        None \<Rightarrow> finditer_from r (Suc pos) cs
      | Some (m, g) \<Rightarrow>
          if m = [] then finditer_from r (Suc pos) cs
          else \<lparr>m_start = pos, m_end = pos + length m, m_groups = g\<rparr>
               # finditer_from r (pos + length m) (drop (length m) (c # cs)))"
  by pat_completeness auto
termination
  by (relation "measure (\<lambda>(r, pos, s). length s)") auto

definition finditer :: "regex \<Rightarrow> string \<Rightarrow> rmatch list" where
  "finditer r s = finditer_from r 0 s"

text \<open>A replacement template: literal characters and group references (\<^verbatim>\<open>\2\<close>). A
  group that took no part in the match expands to the empty string.\<close>

datatype tmpl = TChr char | TGrp nat

fun expand :: "tmpl list \<Rightarrow> groups \<Rightarrow> string" where
  "expand [] g = []"
| "expand (TChr c # ts) g = c # expand ts g"
| "expand (TGrp n # ts) g = (case g n of None \<Rightarrow> [] | Some x \<Rightarrow> x) @ expand ts g"

definition plain :: "string \<Rightarrow> tmpl list" where
  "plain s = map TChr s"

text \<open>\<^verbatim>\<open>pattern.sub(repl, s)\<close>: every match from left to right replaced by the expanded
  template, the text between matches kept.\<close>

function sub :: "regex \<Rightarrow> tmpl list \<Rightarrow> string \<Rightarrow> string" where
  "sub r t [] = []"
| "sub r t (c # cs) =
     (case match_at r (c # cs) of
        None \<Rightarrow> c # sub r t cs
      | Some (m, g) \<Rightarrow>
          if m = [] then c # sub r t cs
          else expand t g @ sub r t (drop (length m) (c # cs)))"
  by pat_completeness auto
termination
  by (relation "measure (\<lambda>(r, t, s). length s)") auto

text \<open>\<^verbatim>\<open>pattern.split(s)\<close> for a pattern without groups: the pieces between the matches,
  empty pieces included; \<open>cur\<close> is the piece being collected.\<close>

function split_from :: "regex \<Rightarrow> string \<Rightarrow> string \<Rightarrow> string list" where
  "split_from r cur [] = [cur]"
| "split_from r cur (c # cs) =
     (case match_at r (c # cs) of
        None \<Rightarrow> split_from r (cur @ [c]) cs
      | Some (m, g) \<Rightarrow>
          if m = [] then split_from r (cur @ [c]) cs
          else cur # split_from r [] (drop (length m) (c # cs)))"
  by pat_completeness auto
termination
  by (relation "measure (\<lambda>(r, cur, s). length s)") auto

definition split :: "regex \<Rightarrow> string \<Rightarrow> string list" where
  "split r s = split_from r [] s"

text \<open>\<^verbatim>\<open>s.strip()\<close> and \<^verbatim>\<open>sep.join(xs)\<close>.\<close>

definition strip :: "string \<Rightarrow> string" where
  "strip s = rev (dropWhile is_space (rev (dropWhile is_space s)))"

fun join :: "string \<Rightarrow> string list \<Rightarrow> string" where
  "join sep [] = []"
| "join sep [x] = x"
| "join sep (x # y # ys) = x @ sep @ join sep (y # ys)"

text \<open>Two notions used to state and prove the properties below. A literal is
  \<open>border_free\<close> when no proper non-empty suffix of it is also a prefix of it: two
  occurrences of it in a text cannot overlap. \<open>min_len r\<close> is a lower bound of the length
  of what \<open>r\<close> matches.\<close>

definition border_free :: "string \<Rightarrow> bool" where
  "border_free w = list_all (\<lambda>k. \<not> prefix (drop k w) w) [1..<length w]"

primrec min_len :: "regex \<Rightarrow> nat" where
  "min_len (Lit w) = length w"
| "min_len (Star p) = 0"
| "min_len (Plus p) = 1"
| "min_len (Seq a b) = min_len a + min_len b"
| "min_len (Alt a b) = min (min_len a) (min_len b)"
| "min_len (Opt a) = 0"
| "min_len (Group n a) = min_len a"

section \<open>The patterns of \<^verbatim>\<open>_define_regexes\<close>\<close>

definition is_chr :: "char \<Rightarrow> cls" where
  "is_chr x c = (c = x)"

text \<open>\<^verbatim>\<open>\s*//[^\n]*\<close>\<close>

definition re_comment :: regex where
  "re_comment = cat [Star is_space, Lit ''//'', Star (not_chr newline)]"

text \<open>\<^verbatim>\<open>NANOARROW_MAX_FIXED_BUFFERS\<close>\<close>

definition re_max_buffers :: regex where
  "re_max_buffers = Lit ''NANOARROW_MAX_FIXED_BUFFERS''"

text \<open>\<^verbatim>\<open>typedef(?P<typedef>[^;]+)\<close>\<close>

definition re_typedef :: regex where
  "re_typedef = cat [Lit ''typedef'', Group 1 (Plus (not_chr CHR '';''))]"

text \<open>\<^verbatim>\<open>struct|union|enum\<close>, the first alternative tried first.\<close>

definition tag_keyword :: regex where
  "tag_keyword = Alt (Lit ''struct'') (Alt (Lit ''union'') (Lit ''enum''))"

text \<open>\<^verbatim>\<open>(?P<type>struct|union|enum) (?P<name>Arrow[^ ]+) {(?P<body>[^}]*)}\<close>\<close>

definition re_type :: regex where
  "re_type = cat [Group 1 tag_keyword, Lit '' '',
                  Group 2 (Seq (Lit ''Arrow'') (Plus (not_chr CHR '' ''))), Lit '' {'',
                  Group 3 (Star (not_chr CHR ''}'')), Lit ''}'']"

text \<open>\<^verbatim>\<open>\n(static inline )?(?P<const>const )?(struct |enum )?(?P<return_type>[A-Za-z0-9_*]+) (?P<name>Arrow[A-Za-z0-9]+)\((?P<args>[^\)]*)\);\<close>
  with the groups numbered as Python numbers them, by their opening parenthesis.\<close>

definition re_func_def :: regex where
  "re_func_def = cat [Lit [newline],
                      Opt (Group 1 (Lit ''static inline '')),
                      Opt (Group 2 (Lit ''const '')),
                      Opt (Group 3 (Alt (Lit ''struct '') (Lit ''enum ''))),
                      Group 4 (Plus is_ctype_char), Lit '' '',
                      Group 5 (Seq (Lit ''Arrow'') (Plus is_alnum)), Lit ''('',
                      Group 6 (Star (not_chr CHR '')'')), Lit '');'']"

text \<open>\<^verbatim>\<open>(?P<type>struct|union|enum) (?P<name>Arrow[A-Za-z]+)\<close>\<close>

definition re_tagged_type :: regex where
  "re_tagged_type = cat [Group 1 tag_keyword, Lit '' '',
                         Group 2 (Seq (Lit ''Arrow'') (Plus is_alpha))]"

text \<open>\<^verbatim>\<open>;\s*\<close>, \<^verbatim>\<open>,\s*\<close>, \<^verbatim>\<open>\s+\<close> and \<^verbatim>\<open>\n +\<close>\<close>

definition re_struct_delim :: regex where
  "re_struct_delim = Seq (Lit '';'') (Star is_space)"

definition re_enum_delim :: regex where
  "re_enum_delim = Seq (Lit '','') (Star is_space)"

definition re_whitespace :: regex where
  "re_whitespace = Plus is_space"

definition re_newline_plus_indent :: regex where
  "re_newline_plus_indent = Seq (Lit [newline]) (Plus (is_chr CHR '' ''))"

text \<open>The pattern of \<^verbatim>\<open>generate_nanoarrow_c\<close>, \<^verbatim>\<open>#include \".*\<close>: the directive, one
  space, a double quote, and the rest of the line.\<close>

definition re_include :: regex where
  "re_include = Seq (Lit (''#include '' @ [dquote])) (Star dot)"

section \<open>Extraction\<close>

text \<open>\<^verbatim>\<open>m.groupdict()\<close> of each pattern: the named groups, \<open>None\<close> for a group that took
  no part in the match.\<close>

record typedef_rec =
  td_typedef :: "string option"

record type_rec =
  ty_type :: "string option"
  ty_name :: "string option"
  ty_body :: "string option"

record func_rec =
  fd_const :: "string option"
  fd_return_type :: "string option"
  fd_name :: "string option"
  fd_args :: "string option"

definition typedef_groupdict :: "rmatch \<Rightarrow> typedef_rec" where
  "typedef_groupdict m = \<lparr>td_typedef = m_groups m 1\<rparr>"

definition type_groupdict :: "rmatch \<Rightarrow> type_rec" where
  "type_groupdict m = \<lparr>ty_type = m_groups m 1, ty_name = m_groups m 2, ty_body = m_groups m 3\<rparr>"

definition func_groupdict :: "rmatch \<Rightarrow> func_rec" where
  "func_groupdict m =
     \<lparr>fd_const = m_groups m 2, fd_return_type = m_groups m 4, fd_name = m_groups m 5,
      fd_args = m_groups m 6\<rparr>"

definition find_typedefs :: "string \<Rightarrow> typedef_rec list" where
  "find_typedefs content = map typedef_groupdict (finditer re_typedef content)"

definition find_types :: "string \<Rightarrow> type_rec list" where
  "find_types content = map type_groupdict (finditer re_type content)"

definition find_func_defs :: "string \<Rightarrow> func_rec list" where
  "find_func_defs content = map func_groupdict (finditer re_func_def content)"

section \<open>Conversion to Cython\<close>

text \<open>What Python raises is a value of the model. A method called on \<open>None\<close> raises
  \<open>AttributeError\<close>, \<open>None\<close> given to \<^verbatim>\<open>re.sub\<close> raises \<open>TypeError\<close>; an f-string prints
  \<open>None\<close> as the word.\<close>

datatype py_error =
    AttributeError | TypeError
  | FileNotFoundError | NotADirectoryError | IsADirectoryError | PermissionError

definition fmt :: "string option \<Rightarrow> string" where
  "fmt v = (case v of None \<Rightarrow> ''None'' | Some s \<Rightarrow> s)"

definition truthy :: "string option \<Rightarrow> bool" where
  "truthy v = (case v of None \<Rightarrow> False | Some s \<Rightarrow> s \<noteq> [])"

text \<open>\<^verbatim>\<open>self.re_tagged_type.sub(r"\2", s)\<close>: a tagged reference replaced by its name.\<close>

definition strip_tags :: "string \<Rightarrow> string" where
  "strip_tags s = sub re_tagged_type [TGrp 2] s"

definition typdef_to_cython :: "typedef_rec \<Rightarrow> string \<Rightarrow> py_error + string" where
  "typdef_to_cython t indent =
     (case td_typedef t of
        None \<Rightarrow> Inl TypeError
      | Some td \<Rightarrow> Inr (indent @ ''ctypedef '' @ strip_tags td))"

definition type_items :: "string option \<Rightarrow> string \<Rightarrow> string list" where
  "type_items type body =
     (if type = Some ''enum'' then filter (\<lambda>item. item \<noteq> []) (split re_enum_delim body)
      else filter (\<lambda>item. item \<noteq> []) (split re_struct_delim body))"

definition type_to_cython :: "type_rec \<Rightarrow> string \<Rightarrow> py_error + string" where
  "type_to_cython t indent =
     (case ty_body t of
        None \<Rightarrow> Inl AttributeError
      | Some b \<Rightarrow>
          (let body = strip_tags (strip b);
               items = type_items (ty_type t) body;
               cython_body = join ([newline] @ indent @ ''    '') ([] # items)
           in Inr (indent @ fmt (ty_type t) @ '' '' @ fmt (ty_name t) @ '':'' @ cython_body)))"

text \<open>The argument list as \<^verbatim>\<open>_func_def_to_cython\<close> rewrites it.\<close>

definition cython_args :: "string \<Rightarrow> string" where
  "cython_args a =
     (let args = sub (Plus is_space) (plain '' '') (strip a);
          args = strip_tags args
      in if args = ''void'' then [] else args)"

definition func_def_to_cython :: "func_rec \<Rightarrow> string \<Rightarrow> py_error + string" where
  "func_def_to_cython d indent =
     (case fd_return_type d of
        None \<Rightarrow> Inl AttributeError
      | Some rt \<Rightarrow>
          (case fd_args d of
             None \<Rightarrow> Inl AttributeError
           | Some a \<Rightarrow>
               (let return_type = strip rt;
                    return_type = (if truthy (fd_const d) then ''const '' @ return_type
                                   else return_type)
                in Inr (indent @ return_type @ '' '' @ fmt (fd_name d)
                        @ ''('' @ cython_args a @ '')''))))"

text \<open>A list comprehension over a conversion stops at the first exception.\<close>

fun map_result :: "('a \<Rightarrow> py_error + 'b) \<Rightarrow> 'a list \<Rightarrow> py_error + 'b list" where
  "map_result f [] = Inr []"
| "map_result f (x # xs) =
     (case f x of
        Inl e \<Rightarrow> Inl e
      | Inr y \<Rightarrow> (case map_result f xs of Inl e \<Rightarrow> Inl e | Inr ys \<Rightarrow> Inr (y # ys)))"

section \<open>Writing \<^verbatim>\<open>nanoarrow_c.pxd\<close>\<close>

text \<open>The literal of \<^verbatim>\<open>_pxd_header\<close>: a newline, the indented lines, and the indent before
  the closing quotes.\<close>

definition pxd_header :: string where
  "pxd_header = [newline] @ concat (map (\<lambda>l. l @ [newline])
    [''        # Licensed to the Apache Software Foundation (ASF) under one'',
     ''        # or more contributor license agreements.  See the NOTICE file'',
     ''        # distributed with this work for additional information'',
     ''        # regarding copyright ownership.  The ASF licenses this file'',
     ''        # to you under the Apache License, Version 2.0 (the'',
     ''        # '' @ [dquote] @ ''License'' @ [dquote] @ ''); you may not use this file except in compliance'',
     ''        # with the License.  You may obtain a copy of the License at'',
     ''        #'',
     ''        #   http://www.apache.org/licenses/LICENSE-2.0'',
     ''        #'',
     ''        # Unless required by applicable law or agreed to in writing,'',
     ''        # software distributed under the License is distributed on an'',
     ''        # '' @ [dquote] @ ''AS IS'' @ [dquote] @ '' BASIS, WITHOUT WARRANTIES OR CONDITIONS OF ANY'',
     ''        # KIND, either express or implied.  See the License for the'',
     ''        # specific language governing permissions and limitations'',
     ''        # under the License.'',
     [],
     ''        # cython: language_level = 3'',
     [],
     ''        from libc.stdint cimport int8_t, uint8_t, int16_t, uint16_t'',
     ''        from libc.stdint cimport int32_t, uint32_t, int64_t, uint64_t''])
    @ ''        ''"

text \<open>\<^verbatim>\<open>s.encode("UTF-8")\<close> for code points below 256: one byte below 128, two from there.\<close>

definition encode_char :: "char \<Rightarrow> string" where
  "encode_char c =
     (if (of_char c :: nat) < 128 then [c]
      else [char_of (192 + (of_char c :: nat) div 64), char_of (128 + (of_char c :: nat) mod 64)])"

definition encode :: "string \<Rightarrow> string" where
  "encode s = concat (map encode_char s)"

text \<open>The file system: the content of each regular file, whether a file can be opened for
  reading, which paths are directories, and whether the process may create or truncate
  the file at a path. A path is the list of its components.\<close>

type_synonym path = "string list"

record fsys =
  fs_contents :: "path \<Rightarrow> string option"
  fs_readable :: "path \<Rightarrow> bool"
  fs_is_dir :: "path \<Rightarrow> bool"
  fs_writable :: "path \<Rightarrow> bool"

text \<open>\<^verbatim>\<open>open(p).read()\<close>: the file is absent, or it cannot be read, or its text is
  returned. The other ways a read can fail (the path is a directory, the bytes do not
  decode) are left out; they would only add exceptions.\<close>

definition read_text :: "fsys \<Rightarrow> path \<Rightarrow> py_error + string" where
  "read_text fs p =
     (case fs_contents fs p of
        None \<Rightarrow> Inl FileNotFoundError
      | Some t \<Rightarrow> if fs_readable fs p then Inr t else Inl PermissionError)"

text \<open>\<^verbatim>\<open>open(p, "wb")\<close> creates the file or truncates it. It raises
  \<open>NotADirectoryError\<close> when a proper prefix of the path (the parent or an ancestor of
  it) is a regular file, \<open>FileNotFoundError\<close> when the parent is no directory,
  \<open>IsADirectoryError\<close> when the path itself is a directory, and \<open>PermissionError\<close> when
  the file may not be created or written. \<^verbatim>\<open>output.write(b)\<close> appends to the open file;
  a write to an open file is taken to succeed (a full disk is not modelled).\<close>

definition open_wb :: "fsys \<Rightarrow> path \<Rightarrow> py_error + fsys" where
  "open_wb fs p =
     (if list_ex (\<lambda>k. fs_contents fs (take k p) \<noteq> None) [0..<length p]
      then Inl NotADirectoryError
      else if \<not> fs_is_dir fs (butlast p) then Inl FileNotFoundError
      else if fs_is_dir fs p then Inl IsADirectoryError
      else if \<not> fs_writable fs p then Inl PermissionError
      else Inr (fs\<lparr>fs_contents := (fs_contents fs)(p \<mapsto> [])\<rparr>))"

definition output_write :: "path \<Rightarrow> fsys \<Rightarrow> string \<Rightarrow> fsys" where
  "output_write p fs b =
     fs\<lparr>fs_contents := (fs_contents fs)(p \<mapsto> (case fs_contents fs p of None \<Rightarrow> [] | Some old \<Rightarrow> old) @ b)\<rparr>"

text \<open>The preprocessing of \<^verbatim>\<open>generate_nanoarrow_pxd\<close>: comments stripped, then the macro
  replaced by its value.\<close>

definition strip_comments :: "string \<Rightarrow> string" where
  "strip_comments content = sub re_comment [] content"

definition replace_max_buffers :: "string \<Rightarrow> string" where
  "replace_max_buffers content = sub re_max_buffers (plain ''3'') content"

definition preprocess :: "string \<Rightarrow> string" where
  "preprocess content = replace_max_buffers (strip_comments content)"

text \<open>The byte strings \<^verbatim>\<open>generate_nanoarrow_pxd\<close> writes, one for each
  \<^verbatim>\<open>output.write\<close>, in order: first the header, the \<^verbatim>\<open>cdef extern\<close> line and the five
  constants added by hand, then the three loops.\<close>

definition pxd_preamble :: "string list" where
  "pxd_preamble =
     [encode (sub re_newline_plus_indent (plain [newline]) pxd_header),
      encode ([newline] @ ''cdef extern from '' @ [dquote] @ ''nanoarrow.h'' @ [dquote]
              @ '' nogil:'' @ [newline]),
      [newline],
      ''    cdef int NANOARROW_OK'' @ [newline],
      ''    cdef int NANOARROW_MAX_FIXED_BUFFERS'' @ [newline],
      ''    cdef int ARROW_FLAG_DICTIONARY_ORDERED'' @ [newline],
      ''    cdef int ARROW_FLAG_NULLABLE'' @ [newline],
      ''    cdef int ARROW_FLAG_MAP_KEYS_SORTED'' @ [newline],
      [newline]]"

definition pxd_writes :: "string list \<Rightarrow> string list \<Rightarrow> string list \<Rightarrow> string list" where
  "pxd_writes types_cython typedefs_cython func_defs_cython =
     pxd_preamble
     @ concat (map (\<lambda>type. [encode type, [newline, newline]]) types_cython)
     @ concat (map (\<lambda>td. [encode td, [newline]]) typedefs_cython)
     @ [[newline]]
     @ concat (map (\<lambda>func_def. [encode func_def, [newline]]) func_defs_cython)"

text \<open>\<^verbatim>\<open>generate_nanoarrow_pxd\<close>: the three lists are converted before the file is opened,
  so an exception of a conversion leaves the file system as it was.\<close>

definition generate_nanoarrow_pxd :: "string \<Rightarrow> path \<Rightarrow> fsys \<Rightarrow> py_error + fsys" where
  "generate_nanoarrow_pxd content build_dir fs =
     (let content = preprocess content;
          typedefs = find_typedefs content;
          types = find_types content;
          func_defs = find_func_defs content
      in case map_result (\<lambda>t. typdef_to_cython t ''    '') typedefs of
           Inl e \<Rightarrow> Inl e
         | Inr typedefs_cython \<Rightarrow>
        (case map_result (\<lambda>t. type_to_cython t ''    '') types of
           Inl e \<Rightarrow> Inl e
         | Inr types_cython \<Rightarrow>
        (case map_result (\<lambda>d. func_def_to_cython d ''    '') func_defs of
           Inl e \<Rightarrow> Inl e
         | Inr func_defs_cython \<Rightarrow>
        (let file_out = build_dir @ [''nanoarrow_c.pxd'']
         in case open_wb fs file_out of
              Inl e \<Rightarrow> Inl e
            | Inr fs' \<Rightarrow>
                Inr (foldl (output_write file_out) fs'
                       (pxd_writes types_cython typedefs_cython func_defs_cython))))))"

section \<open>The header aggregator and the entry point\<close>

definition files :: "string list" where
  "files = [''nanoarrow_types.h'', ''nanoarrow.h'', ''buffer_inline.h'', ''array_inline.h'']"

definition nanoarrow_dir :: "path \<Rightarrow> path" where
  "nanoarrow_dir this_dir = this_dir @ [''subprojects'', ''nanoarrow'', ''src'', ''nanoarrow'']"

text \<open>\<^verbatim>\<open>re.sub(r"#include \".*", "", contents)\<close>\<close>

definition remove_includes :: "string \<Rightarrow> string" where
  "remove_includes contents = sub re_include [] contents"

text \<open>\<^verbatim>\<open>generate_nanoarrow_c\<close>; \<open>this_dir\<close> is the directory of the script. The files are
  opened in text mode with the default encoding, which the model leaves out: a file's
  content is the text \<^verbatim>\<open>f.read()\<close> returns.\<close>

definition generate_nanoarrow_c :: "path \<Rightarrow> fsys \<Rightarrow> py_error + string" where
  "generate_nanoarrow_c this_dir fs =
     (case map_result (\<lambda>file. read_text fs (nanoarrow_dir this_dir @ [file])) files of
        Inl e \<Rightarrow> Inl e
      | Inr header_data \<Rightarrow> Inr (remove_includes (join [newline] header_data)))"

text \<open>The \<^verbatim>\<open>__main__\<close> block, with the build directory parsed from the command line as
  a parameter: the exception that ended the run, if any, and the file system it leaves.\<close>

definition main :: "path \<Rightarrow> path \<Rightarrow> fsys \<Rightarrow> py_error option \<times> fsys" where
  "main this_dir build_dir fs =
     (case generate_nanoarrow_c this_dir fs of
        Inl e \<Rightarrow> (Some e, fs)
      | Inr contents \<Rightarrow>
          (case generate_nanoarrow_pxd contents build_dir fs of
             Inl e \<Rightarrow> (Some e, fs)
           | Inr fs' \<Rightarrow> (None, fs')))"
section \<open>Facts about the matcher\<close>

lemma greedy_split: "(m, r) \<in> set (greedy p s) \<Longrightarrow> m @ r = s"
  by (induction s arbitrary: m r) (auto split: if_splits)

lemma greedy_not_Nil: "greedy p s \<noteq> []"
  by (cases s) auto

lemma hd_greedy: "hd (greedy p s) = (takeWhile p s, dropWhile p s)"
  by (induction s) (auto simp: greedy_not_Nil hd_append hd_map)

lemma greedy_Cons: "\<exists>alts. greedy p s = (takeWhile p s, dropWhile p s) # alts"
  using hd_greedy [of p s] greedy_not_Nil [of p s] by (cases "greedy p s") auto

lemma match_at_Lit: "match_at (Lit w) s = (if prefix w s then Some (w, no_groups) else None)"
  by (simp add: match_at_def)

lemma match_at_Lit_Star:
  "match_at (Seq (Lit w) (Star p)) s =
     (if prefix w s then Some (w @ takeWhile p (drop (length w) s), no_groups) else None)"
proof (cases "prefix w s")
  case True
  obtain alts where "greedy p (drop (length w) s) = (takeWhile p (drop (length w) s), dropWhile p (drop (length w) s)) # alts"
    using greedy_Cons by blast
  with True show ?thesis by (simp add: match_at_def)
next
  case False
  then show ?thesis by (simp add: match_at_def)
qed


subsection \<open>Substitution of a literal\<close>


lemma border_free_overlap:
  assumes bf: "border_free w" and p: "prefix w (a @ w @ b)" and a: "a \<noteq> []"
  shows "length w \<le> length a"
proof (rule ccontr)
  assume "\<not> length w \<le> length a"
  then have lt: "length a < length w" by simp
  from p obtain z where z: "a @ w @ b = w @ z" by (auto simp: prefix_def)
  have "drop (length a) w = take (length w - length a) (w @ b)"
  proof -
    have "drop (length a) (take (length w) (a @ w @ b)) = drop (length a) w"
      using z by simp
    then show ?thesis using lt by (simp add: drop_take)
  qed
  then have "drop (length a) w = take (length w - length a) w" by simp
  then have "prefix (drop (length a) w) w"
    by (metis take_is_prefix)
  moreover have "length a \<in> set [1..<length w]" using a lt by (cases a) auto
  ultimately show False using bf by (auto simp: border_free_def list_all_iff)
qed

lemma prefix_append_long: "prefix w (a @ z) \<Longrightarrow> length w \<le> length a \<Longrightarrow> prefix w a"
  by (metis prefix_length_prefix prefix_order.dual_order.refl prefixI append_prefixD prefix_def)




subsection \<open>Groups, spans and order of the matches\<close>

lemma match_at_run: "match_at r s = Some (m, g) \<Longrightarrow> \<exists>rest. (m, rest, g) \<in> set (run r no_groups s)"
  by (auto simp: match_at_def split: list.splits)

lemma run_split: "(m, r, g') \<in> set (run rx g s) \<Longrightarrow> m @ r = s"
proof (induction rx arbitrary: g s m r g')
  case (Lit w)
  then show ?case by (auto simp: prefix_def split: if_splits)
next
  case (Star p)
  then show ?case by (auto dest: greedy_split)
next
  case (Plus p)
  then show ?case by (auto dest: greedy_split)
next
  case (Seq a b)
  from Seq.prems obtain m1 r1 g1 m2 where
    a: "(m1, r1, g1) \<in> set (run a g s)" and b: "(m2, r, g') \<in> set (run b g1 r1)" and m: "m = m1 @ m2"
    by auto
  from Seq.IH(1)[OF a] Seq.IH(2)[OF b] m show ?case by simp
qed auto

lemma match_at_prefix: "match_at r s = Some (m, g) \<Longrightarrow> prefix m s"
  using match_at_run run_split by (fastforce simp: prefix_def)

lemma match_at_length: "match_at r s = Some (m, g) \<Longrightarrow> length m \<le> length s"
  using match_at_prefix prefix_length_le by blast

lemma finditer_from_sound:
  "x \<in> set (finditer_from r pos s) \<Longrightarrow>
     \<exists>m. match_at r (drop (m_start x - pos) s) = Some (m, m_groups x) \<and> m \<noteq> []
         \<and> m_end x = m_start x + length m \<and> pos \<le> m_start x \<and> m_end x \<le> pos + length s"
proof (induction r pos s rule: finditer_from.induct)
  case (1 r pos)
  then show ?case by simp
next
  case (2 r pos c cs)
  show ?case
  proof (cases "match_at r (c # cs)")
    case None
    with 2 have "x \<in> set (finditer_from r (Suc pos) cs)" by simp
    from "2.IH"(1)[OF None this] obtain m where
      m: "match_at r (drop (m_start x - Suc pos) cs) = Some (m, m_groups x)" "m \<noteq> []"
         "m_end x = m_start x + length m" "Suc pos \<le> m_start x" "m_end x \<le> Suc pos + length cs"
      by blast
    from m(4) have "drop (m_start x - pos) (c # cs) = drop (m_start x - Suc pos) cs"
      by (simp add: Suc_diff_le drop_Cons')
    with m show ?thesis by auto
  next
    case (Some a)
    obtain m g where a: "a = (m, g)" by (cases a)
    show ?thesis
    proof (cases "m = []")
      case True
      with 2 Some a have "x \<in> set (finditer_from r (Suc pos) cs)" by simp
      from "2.IH"(2)[OF Some a[symmetric] True this] obtain m' where
        m: "match_at r (drop (m_start x - Suc pos) cs) = Some (m', m_groups x)" "m' \<noteq> []"
           "m_end x = m_start x + length m'" "Suc pos \<le> m_start x" "m_end x \<le> Suc pos + length cs"
        by blast
      from m(4) have "drop (m_start x - pos) (c # cs) = drop (m_start x - Suc pos) cs"
        by (simp add: Suc_diff_le drop_Cons')
      with m show ?thesis by auto
    next
      case False
      have len: "length m \<le> Suc (length cs)" using match_at_length Some a by fastforce
      from 2 Some a False consider
        (here) "x = \<lparr>m_start = pos, m_end = pos + length m, m_groups = g\<rparr>"
        | (later) "x \<in> set (finditer_from r (pos + length m) (drop (length m) (c # cs)))"
        by auto
      then show ?thesis
      proof cases
        case here
        then show ?thesis using Some a False len by auto
      next
        case later
        from "2.IH"(3)[OF Some a[symmetric] False later] obtain m' where
          m: "match_at r (drop (m_start x - (pos + length m)) (drop (length m) (c # cs))) = Some (m', m_groups x)"
             "m' \<noteq> []" "m_end x = m_start x + length m'" "pos + length m \<le> m_start x"
             "m_end x \<le> pos + length m + length (drop (length m) (c # cs))"
          by blast
        from m(4) have "drop (m_start x - (pos + length m)) (drop (length m) (c # cs))
              = drop (m_start x - pos) (c # cs)"
          by (simp add: add.commute)
        moreover have "pos + length m + length (drop (length m) (c # cs)) = pos + length (c # cs)"
          using len by simp
        ultimately show ?thesis using m by auto
      qed
    qed
  qed
qed

lemma finditer_from_sorted:
  "sorted_wrt (\<lambda>a b. m_end a \<le> m_start b) (finditer_from r pos s)"
proof (induction r pos s rule: finditer_from.induct)
  case (1 r pos)
  then show ?case by simp
next
  case (2 r pos c cs)
  show ?case
  proof (cases "match_at r (c # cs)")
    case None
    then show ?thesis using "2.IH"(1) by simp
  next
    case (Some a)
    obtain m g where a: "a = (m, g)" by (cases a)
    show ?thesis
    proof (cases "m = []")
      case True
      then show ?thesis using "2.IH"(2)[OF Some a[symmetric]] Some a by simp
    next
      case False
      have "\<forall>x \<in> set (finditer_from r (pos + length m) (drop (length m) (c # cs))). pos + length m \<le> m_start x"
        using finditer_from_sound by blast
      then show ?thesis using "2.IH"(3)[OF Some a[symmetric] False] Some a False by simp
    qed
  qed
qed

lemma finditer_from_groups:
  "map m_groups (finditer_from r pos s) = map m_groups (finditer_from r pos' s)"
proof (induction r pos s arbitrary: pos' rule: finditer_from.induct)
  case (1 r pos)
  then show ?case by simp
next
  case (2 r pos c cs)
  show ?case
  proof (cases "match_at r (c # cs)")
    case None
    then show ?thesis using "2.IH"(1) by simp
  next
    case (Some a)
    obtain m g where a: "a = (m, g)" by (cases a)
    show ?thesis
    proof (cases "m = []")
      case True
      then show ?thesis using "2.IH"(2)[OF Some a[symmetric]] Some a by simp
    next
      case False
      then show ?thesis using "2.IH"(3)[OF Some a[symmetric] False] Some a by simp
    qed
  qed
qed

subsection \<open>The matches of a pattern as a set\<close>

lemma greedy_iff: "(m, r) \<in> set (greedy p s) \<longleftrightarrow> m @ r = s \<and> (\<forall>c \<in> set m. p c)"
proof (induction s arbitrary: m r)
  case Nil
  then show ?case by auto
next
  case (Cons x xs)
  show ?case
  proof (cases m)
    case Nil
    then show ?thesis by (auto simp: Cons.IH)
  next
    case c: (Cons y ys)
    have "(y # ys, r) \<in> set (greedy p (x # xs)) \<longleftrightarrow> p x \<and> y = x \<and> (ys, r) \<in> set (greedy p xs)"
      by (force simp: image_iff)
    then show ?thesis using c by (auto simp: Cons.IH)
  qed
qed

lemma run_Lit_iff: "(m, r, g') \<in> set (run (Lit w) g s) \<longleftrightarrow> m = w \<and> s = w @ r \<and> g' = g"
  by (auto simp: prefix_def)

lemma run_Star_iff:
  "(m, r, g') \<in> set (run (Star p) g s) \<longleftrightarrow> g' = g \<and> m @ r = s \<and> (\<forall>c \<in> set m. p c)"
proof -
  have "(m, r, g') \<in> set (run (Star p) g s) \<longleftrightarrow> g' = g \<and> (m, r) \<in> set (greedy p s)"
    by (force simp: image_iff)
  then show ?thesis by (simp add: greedy_iff)
qed

lemma run_Plus_iff:
  "(m, r, g') \<in> set (run (Plus p) g s) \<longleftrightarrow> g' = g \<and> m \<noteq> [] \<and> m @ r = s \<and> (\<forall>c \<in> set m. p c)"
proof -
  have "(m, r, g') \<in> set (run (Plus p) g s) \<longleftrightarrow> g' = g \<and> m \<noteq> [] \<and> (m, r) \<in> set (greedy p s)"
    by (force simp: image_iff)
  then show ?thesis by (auto simp: greedy_iff)
qed

lemma run_Seq_iff:
  "(m, r, g') \<in> set (run (Seq a b) g s) \<longleftrightarrow>
     (\<exists>m1 r1 g1 m2. (m1, r1, g1) \<in> set (run a g s) \<and> (m2, r, g') \<in> set (run b g1 r1) \<and> m = m1 @ m2)"
proof
  assume "(m, r, g') \<in> set (run (Seq a b) g s)"
  then show "\<exists>m1 r1 g1 m2. (m1, r1, g1) \<in> set (run a g s) \<and> (m2, r, g') \<in> set (run b g1 r1) \<and> m = m1 @ m2"
    by auto
next
  assume "\<exists>m1 r1 g1 m2. (m1, r1, g1) \<in> set (run a g s) \<and> (m2, r, g') \<in> set (run b g1 r1) \<and> m = m1 @ m2"
  then obtain m1 r1 g1 m2 where
    a: "(m1, r1, g1) \<in> set (run a g s)" and b: "(m2, r, g') \<in> set (run b g1 r1)" and m: "m = m1 @ m2"
    by blast
  have "(m1 @ m2, r, g') \<in> (\<lambda>(m2, r2, g2). (m1 @ m2, r2, g2)) ` set (run b g1 r1)"
    using b by (rule rev_image_eqI) simp
  then show "(m, r, g') \<in> set (run (Seq a b) g s)"
    using a m by (simp del: set_concat add: set_concat) (rule bexI [of _ "(m1, r1, g1)"], simp_all)
qed

lemma run_Alt_iff:
  "(m, r, g') \<in> set (run (Alt a b) g s) \<longleftrightarrow> (m, r, g') \<in> set (run a g s) \<or> (m, r, g') \<in> set (run b g s)"
  by auto

lemma run_Opt_iff:
  "(m, r, g') \<in> set (run (Opt a) g s) \<longleftrightarrow> (m, r, g') \<in> set (run a g s) \<or> (m = [] \<and> r = s \<and> g' = g)"
  by auto

lemma run_Group_iff:
  "(m, r, g') \<in> set (run (Group n a) g s) \<longleftrightarrow> (\<exists>g0. (m, r, g0) \<in> set (run a g s) \<and> g' = g0(n \<mapsto> m))"
  by (force simp: image_iff)

lemmas run_iff = run_Lit_iff run_Star_iff run_Plus_iff run_Seq_iff run_Alt_iff run_Opt_iff run_Group_iff

subsection \<open>No pattern of the program matches the empty string\<close>

lemma run_min_len: "(m, r, g') \<in> set (run rx g s) \<Longrightarrow> min_len rx \<le> length m"
proof (induction rx arbitrary: g s m r g')
  case (Lit w)
  then show ?case by (auto split: if_splits)
next
  case (Plus p)
  then show ?case by (cases m) auto
next
  case (Seq a b)
  from Seq.prems obtain m1 r1 g1 m2 where
    a: "(m1, r1, g1) \<in> set (run a g s)" and b: "(m2, r, g') \<in> set (run b g1 r1)" and m: "m = m1 @ m2"
    unfolding run_Seq_iff by blast
  from Seq.IH(1)[OF a] Seq.IH(2)[OF b] m show ?case by simp
next
  case (Alt a b)
  then show ?case by (auto simp: min_def) (metis le_trans nat_le_linear)+
next
  case (Group n a)
  then show ?case by auto
qed auto

lemma match_at_min_len: "match_at r s = Some (m, g) \<Longrightarrow> min_len r \<le> length m"
  using match_at_run run_min_len by blast

lemma patterns_never_match_empty:
  assumes "r \<in> {re_comment, re_max_buffers, re_typedef, re_type, re_func_def, re_tagged_type,
                re_struct_delim, re_enum_delim, re_whitespace, re_newline_plus_indent, re_include}"
    and "match_at r s = Some (m, g)"
  shows "m \<noteq> []"
proof -
  have "0 < min_len r"
    using assms(1)
    by (auto simp: re_comment_def re_max_buffers_def re_typedef_def re_type_def re_func_def_def
        re_tagged_type_def re_struct_delim_def re_enum_delim_def re_whitespace_def
        re_newline_plus_indent_def re_include_def tag_keyword_def)
  with match_at_min_len [OF assms(2)] show ?thesis by auto
qed

subsection \<open>What a match of each pattern looks like\<close>

lemma run_re_typedef:
  assumes "(m, r, g) \<in> set (run re_typedef no_groups s)"
  shows "\<exists>body. m = ''typedef'' @ body \<and> body \<noteq> [] \<and> CHR '';'' \<notin> set body \<and> g 1 = Some body
           \<and> s = m @ r"
proof -
  from assms obtain body where
    "m = ''typedef'' @ body" "body \<noteq> []" "\<forall>c \<in> set body. not_chr CHR '';'' c"
    "g = no_groups(1 \<mapsto> body)" "s = ''typedef'' @ body @ r"
    unfolding re_typedef_def cat.simps run_iff by blast
  then show ?thesis unfolding not_chr_def by (intro exI [of _ body]) auto
qed


lemma run_re_type_raw:
  assumes "(m, r, g) \<in> set (run re_type no_groups s)"
  shows "\<exists>kw nm body. m = kw @ '' '' @ (''Arrow'' @ nm) @ '' {'' @ body @ ''}''
    \<and> (kw = ''struct'' \<or> kw = ''union'' \<or> kw = ''enum'') \<and> nm \<noteq> []
    \<and> (\<forall>c \<in> set nm. not_chr CHR '' '' c) \<and> (\<forall>c \<in> set body. not_chr CHR ''}'' c)
    \<and> g = ((no_groups(1 \<mapsto> kw))(2 \<mapsto> ''Arrow'' @ nm))(3 \<mapsto> body)"
  using assms unfolding re_type_def tag_keyword_def cat.simps run_iff
  apply (elim exE conjE)
  apply (elim disjE)
    apply blast+
  done

lemma run_re_type:
  assumes "(m, r, g) \<in> set (run re_type no_groups s)"
  shows "\<exists>kw nm body. m = kw @ '' Arrow'' @ nm @ '' {'' @ body @ ''}''
         \<and> kw \<in> {''struct'', ''union'', ''enum''} \<and> nm \<noteq> [] \<and> CHR '' '' \<notin> set nm
         \<and> CHR ''}'' \<notin> set body
         \<and> g 1 = Some kw \<and> g 2 = Some (''Arrow'' @ nm) \<and> g 3 = Some body"
proof -
  from run_re_type_raw [OF assms] obtain kw nm body where
    m: "m = kw @ '' '' @ (''Arrow'' @ nm) @ '' {'' @ body @ ''}''"
    and kw: "kw = ''struct'' \<or> kw = ''union'' \<or> kw = ''enum''" and nm: "nm \<noteq> []"
    and c: "\<forall>c \<in> set nm. not_chr CHR '' '' c" "\<forall>c \<in> set body. not_chr CHR ''}'' c"
    and g: "g = ((no_groups(1 \<mapsto> kw))(2 \<mapsto> ''Arrow'' @ nm))(3 \<mapsto> body)"
    by blast
  have 1: "m = kw @ '' Arrow'' @ nm @ '' {'' @ body @ ''}''" using m by simp
  have 2: "kw \<in> {''struct'', ''union'', ''enum''}" using kw by blast
  have 3: "CHR '' '' \<notin> set nm" "CHR ''}'' \<notin> set body" using c unfolding not_chr_def by blast+
  have 4: "g 1 = Some kw" "g 2 = Some (''Arrow'' @ nm)" "g 3 = Some body"
    unfolding g by simp_all
  from 1 2 nm 3 4 show ?thesis by blast
qed

lemma run_re_func_def_raw:
  assumes "(m, r, g) \<in> set (run re_func_def no_groups s)"
  shows "\<exists>so co st rt nm a g1 g2 g3.
      m = [newline] @ so @ co @ st @ rt @ '' '' @ (''Arrow'' @ nm) @ ''('' @ a @ '');''
    \<and> ((so = ''static inline '' \<and> g1 = no_groups(1 \<mapsto> so)) \<or> (so = [] \<and> g1 = no_groups))
    \<and> ((co = ''const '' \<and> g2 = g1(2 \<mapsto> co)) \<or> (co = [] \<and> g2 = g1))
    \<and> (((st = ''struct '' \<or> st = ''enum '') \<and> g3 = g2(3 \<mapsto> st)) \<or> (st = [] \<and> g3 = g2))
    \<and> rt \<noteq> [] \<and> (\<forall>c \<in> set rt. is_ctype_char c)
    \<and> nm \<noteq> [] \<and> (\<forall>c \<in> set nm. is_alnum c)
    \<and> (\<forall>c \<in> set a. not_chr CHR '')'' c)
    \<and> g = ((g3(4 \<mapsto> rt))(5 \<mapsto> ''Arrow'' @ nm))(6 \<mapsto> a)"
  using assms unfolding re_func_def_def cat.simps run_iff
  apply (elim exE conjE)
  apply (elim disjE)
    apply blast+
  done


lemma run_re_func_def:
  assumes "(m, r, g) \<in> set (run re_func_def no_groups s)"
  shows "\<exists>so co st rt nm a. m = [newline] @ so @ co @ st @ rt @ '' Arrow'' @ nm @ ''('' @ a @ '');''
         \<and> so \<in> {[], ''static inline ''} \<and> co \<in> {[], ''const ''} \<and> st \<in> {[], ''struct '', ''enum ''}
         \<and> rt \<noteq> [] \<and> (\<forall>c \<in> set rt. is_ctype_char c)
         \<and> nm \<noteq> [] \<and> (\<forall>c \<in> set nm. is_alnum c) \<and> CHR '')'' \<notin> set a
         \<and> g 2 = (if co = [] then None else Some co)
         \<and> g 4 = Some rt \<and> g 5 = Some (''Arrow'' @ nm) \<and> g 6 = Some a"
proof -
  from run_re_func_def_raw [OF assms] obtain so co st rt nm a g1 g2 g3 where
    m: "m = [newline] @ so @ co @ st @ rt @ '' '' @ (''Arrow'' @ nm) @ ''('' @ a @ '');''"
    and so: "(so = ''static inline '' \<and> g1 = no_groups(1 \<mapsto> so)) \<or> (so = [] \<and> g1 = no_groups)"
    and co: "(co = ''const '' \<and> g2 = g1(2 \<mapsto> co)) \<or> (co = [] \<and> g2 = g1)"
    and st: "((st = ''struct '' \<or> st = ''enum '') \<and> g3 = g2(3 \<mapsto> st)) \<or> (st = [] \<and> g3 = g2)"
    and rt: "rt \<noteq> []" "\<forall>c \<in> set rt. is_ctype_char c"
    and nm: "nm \<noteq> []" "\<forall>c \<in> set nm. is_alnum c"
    and a: "\<forall>c \<in> set a. not_chr CHR '')'' c"
    and g: "g = ((g3(4 \<mapsto> rt))(5 \<mapsto> ''Arrow'' @ nm))(6 \<mapsto> a)"
    by blast
  have 1: "m = [newline] @ so @ co @ st @ rt @ '' Arrow'' @ nm @ ''('' @ a @ '');''"
    using m by simp
  have 2: "so \<in> {[], ''static inline ''}" "co \<in> {[], ''const ''}" "st \<in> {[], ''struct '', ''enum ''}"
    using so co st by blast+
  have 3: "CHR '')'' \<notin> set a" using a unfolding not_chr_def by blast
  have g1: "g1 2 = None" using so by (auto simp: no_groups_def)
  have g2: "g2 2 = (if co = [] then None else Some co)" using co g1 by auto
  have g3: "g3 2 = g2 2" using st by auto
  have 4: "g 2 = (if co = [] then None else Some co)" unfolding g using g2 g3 by simp
  have 5: "g 4 = Some rt" "g 5 = Some (''Arrow'' @ nm)" "g 6 = Some a"
    unfolding g by simp_all
  from 1 2 rt nm 3 4 5 show ?thesis by blast
qed

section \<open>The extracted records and their conversion\<close>

lemma map_result_all:
  "(\<forall>x \<in> set xs. \<exists>y. f x = Inr y) \<Longrightarrow>
     \<exists>ys. map_result f xs = Inr ys \<and> length ys = length xs \<and> (\<forall>i < length xs. f (xs ! i) = Inr (ys ! i))"
proof (induction xs)
  case Nil
  then show ?case by simp
next
  case (Cons x xs)
  then obtain y where y: "f x = Inr y" by auto
  from Cons obtain ys where ys: "map_result f xs = Inr ys" "length ys = length xs"
    "\<forall>i < length xs. f (xs ! i) = Inr (ys ! i)" by auto
  have "\<forall>i < length (x # xs). f ((x # xs) ! i) = Inr ((y # ys) ! i)"
    using y ys(3) by (auto simp: nth_Cons split: nat.splits)
  then show ?case using y ys by simp
qed

lemma finditer_run:
  assumes "x \<in> set (finditer r s)"
  shows "\<exists>m rest t. (m, rest, m_groups x) \<in> set (run r no_groups t) \<and> m \<noteq> []"
proof -
  from assms finditer_from_sound [of x r 0 s] obtain m where
    "match_at r (drop (m_start x) s) = Some (m, m_groups x)" "m \<noteq> []"
    by (auto simp: finditer_def)
  then show ?thesis using match_at_run by blast
qed

lemma find_typedefs_record:
  assumes "t \<in> set (find_typedefs content)"
  shows "\<exists>body. td_typedef t = Some body \<and> body \<noteq> [] \<and> CHR '';'' \<notin> set body"
proof -
  from assms obtain x where x: "x \<in> set (finditer re_typedef content)" and t: "t = typedef_groupdict x"
    by (auto simp: find_typedefs_def)
  from finditer_run [OF x] obtain m rest u where "(m, rest, m_groups x) \<in> set (run re_typedef no_groups u)"
    by blast
  from run_re_typedef [OF this] show ?thesis by (auto simp: t typedef_groupdict_def)
qed

lemma find_types_record:
  assumes "t \<in> set (find_types content)"
  shows "\<exists>kw nm body. ty_type t = Some kw \<and> kw \<in> {''struct'', ''union'', ''enum''}
           \<and> ty_name t = Some (''Arrow'' @ nm) \<and> nm \<noteq> [] \<and> CHR '' '' \<notin> set nm
           \<and> ty_body t = Some body \<and> CHR ''}'' \<notin> set body"
proof -
  from assms obtain x where x: "x \<in> set (finditer re_type content)" and t: "t = type_groupdict x"
    by (auto simp: find_types_def)
  from finditer_run [OF x] obtain m rest u where "(m, rest, m_groups x) \<in> set (run re_type no_groups u)"
    by blast
  from run_re_type [OF this] obtain kw nm body where
    "kw \<in> {''struct'', ''union'', ''enum''}" "nm \<noteq> []" "CHR '' '' \<notin> set nm" "CHR ''}'' \<notin> set body"
    "m_groups x 1 = Some kw" "m_groups x 2 = Some (''Arrow'' @ nm)" "m_groups x 3 = Some body"
    by blast
  then show ?thesis unfolding t type_groupdict_def by (simp; blast)
qed

lemma find_func_defs_record:
  assumes "d \<in> set (find_func_defs content)"
  shows "\<exists>co rt nm a. fd_const d = (if co = [] then None else Some co) \<and> co \<in> {[], ''const ''}
           \<and> fd_return_type d = Some rt \<and> rt \<noteq> [] \<and> (\<forall>c \<in> set rt. is_ctype_char c)
           \<and> fd_name d = Some (''Arrow'' @ nm) \<and> nm \<noteq> [] \<and> (\<forall>c \<in> set nm. is_alnum c)
           \<and> fd_args d = Some a \<and> CHR '')'' \<notin> set a"
proof -
  from assms obtain x where x: "x \<in> set (finditer re_func_def content)" and d: "d = func_groupdict x"
    by (auto simp: find_func_defs_def)
  from finditer_run [OF x] obtain m rest u where "(m, rest, m_groups x) \<in> set (run re_func_def no_groups u)"
    by blast
  from run_re_func_def [OF this] obtain co rt nm a where
    "co \<in> {[], ''const ''}" "rt \<noteq> []" "\<forall>c \<in> set rt. is_ctype_char c" "nm \<noteq> []"
    "\<forall>c \<in> set nm. is_alnum c" "CHR '')'' \<notin> set a"
    "m_groups x 2 = (if co = [] then None else Some co)"
    "m_groups x 4 = Some rt" "m_groups x 5 = Some (''Arrow'' @ nm)" "m_groups x 6 = Some a"
    by blast
  then show ?thesis unfolding d func_groupdict_def by (simp; blast)
qed

lemma typdef_to_cython_total:
  "t \<in> set (find_typedefs content) \<Longrightarrow> \<exists>y. typdef_to_cython t indent = Inr y"
  using find_typedefs_record [of t content] by (auto simp: typdef_to_cython_def)

lemma type_to_cython_total:
  "t \<in> set (find_types content) \<Longrightarrow> \<exists>y. type_to_cython t indent = Inr y"
  using find_types_record [of t content] by (auto simp: type_to_cython_def Let_def)

lemma func_def_to_cython_total:
  "d \<in> set (find_func_defs content) \<Longrightarrow> \<exists>y. func_def_to_cython d indent = Inr y"
  using find_func_defs_record [of d content] by (auto simp: func_def_to_cython_def Let_def)

lemma foldl_output_write:
  "fs_contents fs p = Some old \<Longrightarrow>
     foldl (output_write p) fs bs = fs\<lparr>fs_contents := (fs_contents fs)(p \<mapsto> old @ concat bs)\<rparr>"
proof (induction bs arbitrary: fs old)
  case Nil
  then show ?case by (simp add: fun_upd_idem)
next
  case (Cons b bs)
  have step: "output_write p fs b = fs\<lparr>fs_contents := (fs_contents fs)(p \<mapsto> old @ b)\<rparr>"
    using Cons.prems by (simp add: output_write_def)
  have c: "fs_contents (output_write p fs b) p = Some (old @ b)"
    unfolding step by simp
  have "foldl (output_write p) fs (b # bs) = foldl (output_write p) (output_write p fs b) bs"
    by simp
  also have "\<dots> = (output_write p fs b)\<lparr>fs_contents :=
      (fs_contents (output_write p fs b))(p \<mapsto> (old @ b) @ concat bs)\<rparr>"
    by (rule Cons.IH [OF c])
  also have "\<dots> = fs\<lparr>fs_contents := (fs_contents fs)(p \<mapsto> old @ concat (b # bs))\<rparr>"
    unfolding step by simp
  finally show ?case .
qed

lemma generate_nanoarrow_pxd_error:
  "generate_nanoarrow_pxd content build_dir fs = Inl e
     \<longleftrightarrow> open_wb fs (build_dir @ [''nanoarrow_c.pxd'']) = Inl e"
proof -
  obtain tds where tds: "map_result (\<lambda>t. typdef_to_cython t ''    '') (find_typedefs (preprocess content)) = Inr tds"
    using map_result_all [of "find_typedefs (preprocess content)" "\<lambda>t. typdef_to_cython t ''    ''"]
      typdef_to_cython_total by blast
  obtain tys where tys: "map_result (\<lambda>t. type_to_cython t ''    '') (find_types (preprocess content)) = Inr tys"
    using map_result_all [of "find_types (preprocess content)" "\<lambda>t. type_to_cython t ''    ''"]
      type_to_cython_total by blast
  obtain fds where fds: "map_result (\<lambda>d. func_def_to_cython d ''    '') (find_func_defs (preprocess content)) = Inr fds"
    using map_result_all [of "find_func_defs (preprocess content)" "\<lambda>d. func_def_to_cython d ''    ''"]
      func_def_to_cython_total by blast
  show ?thesis
  proof (cases "open_wb fs (build_dir @ [''nanoarrow_c.pxd''])")
    case (Inl e')
    then have "generate_nanoarrow_pxd content build_dir fs = Inl e'"
      unfolding generate_nanoarrow_pxd_def Let_def by (simp only: tds tys fds sum.case)
    with Inl show ?thesis by simp
  next
    case (Inr fs')
    then have "\<exists>x. generate_nanoarrow_pxd content build_dir fs = Inr x"
      unfolding generate_nanoarrow_pxd_def Let_def by (simp only: tds tys fds sum.case) simp
    with Inr show ?thesis by auto
  qed
qed

lemma open_wb_ok:
  assumes "\<forall>k \<le> length build_dir. fs_contents fs (take k build_dir) = None"
    and "fs_is_dir fs build_dir" and "\<not> fs_is_dir fs (build_dir @ [file])"
    and "fs_writable fs (build_dir @ [file])"
  shows "open_wb fs (build_dir @ [file])
         = Inr (fs\<lparr>fs_contents := (fs_contents fs)(build_dir @ [file] \<mapsto> [])\<rparr>)"
proof -
  have "\<not> list_ex (\<lambda>k. fs_contents fs (take k (build_dir @ [file])) \<noteq> None)
           [0..<length (build_dir @ [file])]"
    using assms(1) by (auto simp: list_ex_iff)
  then show ?thesis using assms(2-4) unfolding open_wb_def by simp
qed

lemma generate_nanoarrow_pxd_result:
  assumes "\<forall>k \<le> length build_dir. fs_contents fs (take k build_dir) = None" and "fs_is_dir fs build_dir"
    and "\<not> fs_is_dir fs (build_dir @ [''nanoarrow_c.pxd''])"
    and "fs_writable fs (build_dir @ [''nanoarrow_c.pxd''])"
  shows "\<exists>typedefs_cython types_cython func_defs_cython.
      map_result (\<lambda>t. typdef_to_cython t ''    '') (find_typedefs (preprocess content)) = Inr typedefs_cython
    \<and> map_result (\<lambda>t. type_to_cython t ''    '') (find_types (preprocess content)) = Inr types_cython
    \<and> map_result (\<lambda>d. func_def_to_cython d ''    '') (find_func_defs (preprocess content)) = Inr func_defs_cython
    \<and> generate_nanoarrow_pxd content build_dir fs =
        Inr (fs\<lparr>fs_contents := (fs_contents fs)(build_dir @ [''nanoarrow_c.pxd''] \<mapsto>
               concat (pxd_writes types_cython typedefs_cython func_defs_cython))\<rparr>)"
proof -
  obtain tds where tds: "map_result (\<lambda>t. typdef_to_cython t ''    '') (find_typedefs (preprocess content)) = Inr tds"
    using map_result_all [of "find_typedefs (preprocess content)" "\<lambda>t. typdef_to_cython t ''    ''"]
      typdef_to_cython_total by blast
  obtain tys where tys: "map_result (\<lambda>t. type_to_cython t ''    '') (find_types (preprocess content)) = Inr tys"
    using map_result_all [of "find_types (preprocess content)" "\<lambda>t. type_to_cython t ''    ''"]
      type_to_cython_total by blast
  obtain fds where fds: "map_result (\<lambda>d. func_def_to_cython d ''    '') (find_func_defs (preprocess content)) = Inr fds"
    using map_result_all [of "find_func_defs (preprocess content)" "\<lambda>d. func_def_to_cython d ''    ''"]
      func_def_to_cython_total by blast
  let ?out = "build_dir @ [''nanoarrow_c.pxd'']"
  let ?fs0 = "fs\<lparr>fs_contents := (fs_contents fs)(?out \<mapsto> [])\<rparr>"
  have o: "open_wb fs ?out = Inr ?fs0" using assms by (simp add: open_wb_ok)
  have w: "foldl (output_write ?out) ?fs0 (pxd_writes tys tds fds)
        = fs\<lparr>fs_contents := (fs_contents fs)(?out \<mapsto> concat (pxd_writes tys tds fds))\<rparr>"
    using foldl_output_write [of ?fs0 ?out "[]" "pxd_writes tys tds fds"] by simp
  have "generate_nanoarrow_pxd content build_dir fs =
        Inr (fs\<lparr>fs_contents := (fs_contents fs)(?out \<mapsto> concat (pxd_writes tys tds fds))\<rparr>)"
    unfolding generate_nanoarrow_pxd_def Let_def by (simp only: tds tys fds o w sum.case)
  with tds tys fds show ?thesis by blast
qed

lemma finditer_occurrence:
  assumes x: "x \<in> set (finditer r s)"
  shows "\<exists>m rest. (m, rest, m_groups x) \<in> set (run r no_groups (drop (m_start x) s)) \<and> sublist m s"
proof -
  from x finditer_from_sound [of x r 0 s] obtain m where
    m: "match_at r (drop (m_start x) s) = Some (m, m_groups x)"
    by (auto simp: finditer_def)
  from match_at_run [OF m] obtain rest where r: "(m, rest, m_groups x) \<in> set (run r no_groups (drop (m_start x) s))"
    by blast
  have "prefix m (drop (m_start x) s)" using m by (rule match_at_prefix)
  then have "sublist m (drop (m_start x) s)" by (rule prefix_imp_sublist)
  moreover have "sublist (drop (m_start x) s) s" by (rule sublist_drop)
  ultimately have "sublist m s" by (rule sublist_order.order_trans)
  with r show ?thesis by blast
qed

lemma no_typedef_no_record:
  assumes "\<not> sublist ''typedef'' s"
  shows "find_typedefs s = []"
proof -
  have "finditer re_typedef s = []"
  proof (cases "finditer re_typedef s")
    case Nil
    then show ?thesis .
  next
    case (Cons x xs)
    then have "x \<in> set (finditer re_typedef s)" by simp
    from finditer_occurrence [OF this] obtain m rest where
      r: "(m, rest, m_groups x) \<in> set (run re_typedef no_groups (drop (m_start x) s))" and sl: "sublist m s"
      by blast
    from run_re_typedef [OF r] obtain body where "m = ''typedef'' @ body" by blast
    then have "sublist ''typedef'' m" by (metis sublist_append_rightI)
    then have "sublist ''typedef'' s" using sl by (rule sublist_order.order_trans)
    with assms show ?thesis by blast
  qed
  then show ?thesis by (simp add: find_typedefs_def)
qed

lemma no_Arrow_no_type:
  assumes "\<not> sublist ''Arrow'' s"
  shows "find_types s = []"
proof -
  have "finditer re_type s = []"
  proof (cases "finditer re_type s")
    case Nil
    then show ?thesis .
  next
    case (Cons x xs)
    then have "x \<in> set (finditer re_type s)" by simp
    from finditer_occurrence [OF this] obtain m rest where
      r: "(m, rest, m_groups x) \<in> set (run re_type no_groups (drop (m_start x) s))" and sl: "sublist m s"
      by blast
    from run_re_type [OF r] obtain kw nm body where "m = kw @ '' Arrow'' @ nm @ '' {'' @ body @ ''}''" by blast
    then have "m = (kw @ '' '') @ ''Arrow'' @ (nm @ '' {'' @ body @ ''}'')" by simp
    then have "sublist ''Arrow'' m" by (metis sublist_appendI)
    then have "sublist ''Arrow'' s" using sl by (rule sublist_order.order_trans)
    with assms show ?thesis by blast
  qed
  then show ?thesis by (simp add: find_types_def)
qed

lemma no_Arrow_no_func_def:
  assumes "\<not> sublist ''Arrow'' s"
  shows "find_func_defs s = []"
proof -
  have "finditer re_func_def s = []"
  proof (cases "finditer re_func_def s")
    case Nil
    then show ?thesis .
  next
    case (Cons x xs)
    then have "x \<in> set (finditer re_func_def s)" by simp
    from finditer_occurrence [OF this] obtain m rest where
      r: "(m, rest, m_groups x) \<in> set (run re_func_def no_groups (drop (m_start x) s))" and sl: "sublist m s"
      by blast
    from run_re_func_def [OF r] obtain so co st rt nm a where
      "m = [newline] @ so @ co @ st @ rt @ '' Arrow'' @ nm @ ''('' @ a @ '');''" by blast
    then have "m = ([newline] @ so @ co @ st @ rt @ '' '') @ ''Arrow'' @ (nm @ ''('' @ a @ '');'')" by simp
    then have "sublist ''Arrow'' m" by (metis sublist_appendI)
    then have "sublist ''Arrow'' s" using sl by (rule sublist_order.order_trans)
    with assms show ?thesis by blast
  qed
  then show ?thesis by (simp add: find_func_defs_def)
qed

lemma map_result_fails:
  "x \<in> set xs \<Longrightarrow> f x = Inl e \<Longrightarrow> \<exists>e'. map_result f xs = Inl e'"
  by (induction xs) (auto split: sum.splits)

subsection \<open>Substitution of a literal followed by a repeated class\<close>

lemma prefix_before_char:
  assumes "prefix w (l @ c # rest)" and "c \<notin> set w"
  shows "prefix w l"
proof -
  from assms(1) have "prefix w l \<or> (\<exists>us. w = l @ us \<and> prefix us (c # rest))"
    by (simp add: prefix_append)
  then show ?thesis
  proof
    assume "prefix w l"
    then show ?thesis .
  next
    assume "\<exists>us. w = l @ us \<and> prefix us (c # rest)"
    then obtain us where us: "w = l @ us" "prefix us (c # rest)" by blast
    show ?thesis
    proof (cases us)
      case Nil
      then show ?thesis using us by simp
    next
      case (Cons u us')
      then have "u = c" using us(2) by simp
      then have "c \<in> set w" using us(1) Cons by simp
      with assms(2) show ?thesis by blast
    qed
  qed
qed

lemma sub_Lit_Star_Cons:
  assumes "w \<noteq> []"
  shows "sub (Seq (Lit w) (Star p)) t (c # cs) =
     (if prefix w (c # cs)
      then expand t no_groups @ sub (Seq (Lit w) (Star p)) t (dropWhile p (drop (length w) (c # cs)))
      else c # sub (Seq (Lit w) (Star p)) t cs)"
proof (cases "prefix w (c # cs)")
  case True
  then obtain z where z: "c # cs = w @ z" by (auto simp: prefix_def)
  have dz: "drop (length w) (c # cs) = z" unfolding z by simp
  have "c # cs = (w @ takeWhile p z) @ dropWhile p z" using z by simp
  then have d: "drop (length (w @ takeWhile p z)) (c # cs) = dropWhile p z"
    by (metis append_eq_conv_conj)
  have m: "match_at (Seq (Lit w) (Star p)) (c # cs) = Some (w @ takeWhile p z, no_groups)"
    using True dz by (simp add: match_at_Lit_Star)
  have ne: "w @ takeWhile p z \<noteq> []" using assms by simp
  show ?thesis
    using True by (simp only: sub.simps m option.case prod.case ne if_False if_True d dz)
next
  case False
  then have "match_at (Seq (Lit w) (Star p)) (c # cs) = None" by (simp add: match_at_Lit_Star)
  then show ?thesis using False by (simp only: sub.simps option.case if_False)
qed

lemma sub_Lit_Star_keep:
  assumes "\<not> sublist w l"
  shows "sub (Seq (Lit w) (Star p)) t l = l"
  using assms
proof (induction l)
  case Nil
  then show ?case by simp
next
  case (Cons x xs)
  have w: "w \<noteq> []" using Cons.prems by auto
  have "\<not> prefix w (x # xs)" using Cons.prems by (auto dest: prefix_imp_sublist)
  moreover have "\<not> sublist w xs" using Cons.prems by (auto simp: sublist_Cons_right)
  ultimately show ?case using Cons.IH by (simp add: sub_Lit_Star_Cons [OF w] del: sub.simps)
qed

lemma sub_Lit_Star_keep_line:
  assumes "\<not> sublist w l" and "c \<notin> set w"
  shows "sub (Seq (Lit w) (Star p)) t (l @ c # rest) = l @ c # sub (Seq (Lit w) (Star p)) t rest"
  using assms(1)
proof (induction l)
  case Nil
  have w: "w \<noteq> []" using Nil by auto
  have "\<not> prefix w (c # rest)" using assms(2) w by (cases w) auto
  then show ?case by (simp add: sub_Lit_Star_Cons [OF w] del: sub.simps)
next
  case (Cons x xs)
  have w: "w \<noteq> []" using Cons.prems by auto
  have "\<not> prefix w ((x # xs) @ c # rest)"
    using prefix_before_char [OF _ assms(2)] Cons.prems by (blast dest: prefix_imp_sublist)
  moreover have "\<not> sublist w xs" using Cons.prems by (auto simp: sublist_Cons_right)
  ultimately show ?case using Cons.IH by (simp add: sub_Lit_Star_Cons [OF w] del: sub.simps)
qed

lemma no_early_match:
  assumes bf: "border_free w" and a: "\<not> sublist w (x # xs)"
  shows "\<not> prefix w ((x # xs) @ w @ z)"
proof
  assume p: "prefix w ((x # xs) @ w @ z)"
  from border_free_overlap [OF bf p] have "length w \<le> length (x # xs)" by simp
  with p have "prefix w (x # xs)" by (rule prefix_append_long)
  with a show False by (blast dest: prefix_imp_sublist)
qed

lemma sub_Lit_Star_cut_line:
  assumes bf: "border_free w" and a: "\<not> sublist w a" and t: "\<forall>c \<in> set t. p c" and c: "\<not> p c"
    and cw: "c \<notin> set w"
  shows "sub (Seq (Lit w) (Star p)) [] (a @ w @ t @ c # rest) = a @ c # sub (Seq (Lit w) (Star p)) [] rest"
  using a
proof (induction a)
  case Nil
  have w: "w \<noteq> []" using Nil by auto
  obtain y ys where wy: "w = y # ys" using w by (cases w) auto
  have d: "dropWhile p (t @ c # rest) = c # rest" using t c by (simp add: dropWhile_append3)
  have "sub (Seq (Lit w) (Star p)) [] (w @ t @ c # rest)
      = sub (Seq (Lit w) (Star p)) [] (dropWhile p (drop (length w) (w @ t @ c # rest)))"
    using sub_Lit_Star_Cons [OF w, of p "[]" y "ys @ t @ c # rest"] by (simp add: wy)
  also have "\<dots> = sub (Seq (Lit w) (Star p)) [] (c # rest)" using d by simp
  also have "\<dots> = c # sub (Seq (Lit w) (Star p)) [] rest"
  proof -
    have "\<not> prefix w (c # rest)" using cw w by (cases w) auto
    then show ?thesis by (simp add: sub_Lit_Star_Cons [OF w] del: sub.simps)
  qed
  finally show ?case by simp
next
  case (Cons x xs)
  have w: "w \<noteq> []" using Cons.prems by auto
  have "\<not> prefix w ((x # xs) @ w @ (t @ c # rest))" using bf Cons.prems by (rule no_early_match)
  moreover have "\<not> sublist w xs" using Cons.prems by (auto simp: sublist_Cons_right)
  ultimately show ?case using Cons.IH by (simp add: sub_Lit_Star_Cons [OF w] del: sub.simps)
qed

lemma sub_Lit_Star_cut_end:
  assumes bf: "border_free w" and a: "\<not> sublist w a" and t: "\<forall>c \<in> set t. p c"
  shows "sub (Seq (Lit w) (Star p)) [] (a @ w @ t) = a"
  using a
proof (induction a)
  case Nil
  have w: "w \<noteq> []" using Nil by auto
  obtain y ys where wy: "w = y # ys" using w by (cases w) auto
  have d: "dropWhile p t = []" using t by simp
  have "sub (Seq (Lit w) (Star p)) [] (w @ t)
      = sub (Seq (Lit w) (Star p)) [] (dropWhile p (drop (length w) (w @ t)))"
    using sub_Lit_Star_Cons [OF w, of p "[]" y "ys @ t"] by (simp add: wy)
  then show ?case using d by simp
next
  case (Cons x xs)
  have w: "w \<noteq> []" using Cons.prems by auto
  have "\<not> prefix w ((x # xs) @ w @ t)" using bf Cons.prems by (rule no_early_match)
  moreover have "\<not> sublist w xs" using Cons.prems by (auto simp: sublist_Cons_right)
  ultimately show ?case using Cons.IH by (simp add: sub_Lit_Star_Cons [OF w] del: sub.simps)
qed

subsection \<open>Matches of a literal followed by a captured run\<close>

lemma match_at_Lit_Group_Plus:
  "match_at (Seq (Lit w) (Group n (Plus p))) s =
     (if prefix w s \<and> takeWhile p (drop (length w) s) \<noteq> []
      then Some (w @ takeWhile p (drop (length w) s), no_groups(n \<mapsto> takeWhile p (drop (length w) s)))
      else None)"
proof (cases "prefix w s")
  case False
  then show ?thesis by (simp add: match_at_def)
next
  case True
  let ?z = "drop (length w) s"
  show ?thesis
  proof (cases ?z)
    case Nil
    then show ?thesis using True by (simp add: match_at_def)
  next
    case (Cons c cs)
    show ?thesis
    proof (cases "p c")
      case False
      then show ?thesis using True Cons by (simp add: match_at_def)
    next
      case pc: True
      obtain alts where a: "greedy p cs = (takeWhile p cs, dropWhile p cs) # alts"
        using greedy_Cons by blast
      show ?thesis using True Cons pc a by (simp add: match_at_def)
    qed
  qed
qed

lemma finditer_skip:
  "(\<forall>k < length u. match_at r (drop k u @ z) = None) \<Longrightarrow>
     finditer_from r pos (u @ z) = finditer_from r (pos + length u) z"
proof (induction u arbitrary: pos)
  case Nil
  then show ?case by simp
next
  case (Cons x xs)
  have 0: "match_at r ((x # xs) @ z) = None" using Cons.prems [rule_format, of 0] by simp
  have "\<forall>k < length xs. match_at r (drop k xs @ z) = None"
  proof (intro allI impI)
    fix k assume "k < length xs"
    then show "match_at r (drop k xs @ z) = None" using Cons.prems [rule_format, of "Suc k"] by simp
  qed
  from Cons.IH [OF this, of "Suc pos"] 0 show ?case by simp
qed

lemma skip_before_literal:
  assumes bf: "border_free w" and a: "\<not> sublist w a" and k: "k < length a"
  shows "\<not> prefix w (drop k a @ w @ z)"
proof -
  obtain x xs where d: "drop k a = x # xs" using k by (cases "drop k a") auto
  have "sublist (drop k a) a" by (rule sublist_drop)
  then have "\<not> sublist w (x # xs)" using a d sublist_order.order_trans by metis
  from no_early_match [OF bf this, of z] show ?thesis by (simp add: d)
qed

lemma finditer_Lit_Group_Plus_first:
  assumes bf: "border_free w" and a: "\<not> sublist w a" and b: "body \<noteq> []" "\<forall>c \<in> set body. p c"
    and z: "z = [] \<or> \<not> p (hd z)"
  shows "finditer_from (Seq (Lit w) (Group n (Plus p))) pos (a @ w @ body @ z) =
           \<lparr>m_start = pos + length a, m_end = pos + length a + length (w @ body),
            m_groups = no_groups(n \<mapsto> body)\<rparr>
           # finditer_from (Seq (Lit w) (Group n (Plus p))) (pos + length a + length (w @ body)) z"
proof -
  let ?r = "Seq (Lit w) (Group n (Plus p))"
  have w: "w \<noteq> []" using a by auto
  have "\<forall>k < length a. match_at ?r (drop k a @ w @ body @ z) = None"
    using skip_before_literal [OF bf a] by (simp add: match_at_Lit_Group_Plus)
  then have s: "finditer_from ?r pos (a @ w @ body @ z) = finditer_from ?r (pos + length a) (w @ body @ z)"
    by (rule finditer_skip)
  have tw: "takeWhile p (body @ z) = body"
  proof (cases z)
    case Nil
    then show ?thesis using b(2) by simp
  next
    case (Cons d ds)
    then have "\<not> p d" using z by simp
    then show ?thesis using b(2) Cons by (simp add: takeWhile_tail)
  qed
  have m: "match_at ?r (w @ body @ z) = Some (w @ body, no_groups(n \<mapsto> body))"
    using tw b(1) by (simp add: match_at_Lit_Group_Plus)
  obtain y ys where wy: "w @ body @ z = y # ys" using w by (cases w) auto
  have "finditer_from ?r (pos + length a) (y # ys) =
      \<lparr>m_start = pos + length a, m_end = pos + length a + length (w @ body), m_groups = no_groups(n \<mapsto> body)\<rparr>
      # finditer_from ?r (pos + length a + length (w @ body)) (drop (length (w @ body)) (y # ys))"
    using m w unfolding wy by simp
  then show ?thesis using s unfolding wy [symmetric] by simp
qed

lemma finditer_Lit_Group_Plus_none:
  assumes bf: "border_free w" and a: "\<not> sublist w a" and d: "\<not> p d" "d \<notin> set w"
  shows "finditer_from (Seq (Lit w) (Group n (Plus p))) pos (a @ w @ d # rest) =
           finditer_from (Seq (Lit w) (Group n (Plus p))) (pos + length (a @ w @ [d])) rest"
proof -
  let ?r = "Seq (Lit w) (Group n (Plus p))"
  have "\<forall>k < length (a @ w @ [d]). match_at ?r (drop k (a @ w @ [d]) @ rest) = None"
  proof (intro allI impI)
    fix k assume k: "k < length (a @ w @ [d])"
    show "match_at ?r (drop k (a @ w @ [d]) @ rest) = None"
    proof (cases "k < length a")
      case True
      have "drop k (a @ w @ [d]) @ rest = drop k a @ w @ (d # rest)" using True by simp
      then show ?thesis using skip_before_literal [OF bf a True] by (simp add: match_at_Lit_Group_Plus)
    next
      case False
      then have e: "drop k (a @ w @ [d]) @ rest = drop (k - length a) w @ d # rest"
        using k by simp
      show ?thesis
      proof (cases "k = length a")
        case True
        then show ?thesis using e d(1) by (simp add: match_at_Lit_Group_Plus)
      next
        case ne: False
        have "w \<noteq> []" using a by auto
        then have lt: "length (drop (k - length a) w) < length w" using ne False k
          by (cases w) auto
        have "\<not> prefix w (drop (k - length a) w @ d # rest)"
        proof
          assume "prefix w (drop (k - length a) w @ d # rest)"
          from prefix_before_char [OF this d(2)] have "prefix w (drop (k - length a) w)" .
          then have "length w \<le> length (drop (k - length a) w)" by (rule prefix_length_le)
          with lt show False by simp
        qed
        then show ?thesis using e by (simp add: match_at_Lit_Group_Plus)
      qed
    qed
  qed
  from finditer_skip [OF this, of pos] show ?thesis by simp
qed

lemma finditer_Lit_Group_Plus_end:
  assumes bf: "border_free w" and a: "\<not> sublist w a"
  shows "finditer_from (Seq (Lit w) (Group n (Plus p))) pos (a @ w) = []"
proof -
  let ?r = "Seq (Lit w) (Group n (Plus p))"
  have "\<forall>k < length (a @ w). match_at ?r (drop k (a @ w) @ []) = None"
  proof (intro allI impI)
    fix k assume k: "k < length (a @ w)"
    show "match_at ?r (drop k (a @ w) @ []) = None"
    proof (cases "k < length a")
      case True
      have "drop k (a @ w) @ [] = drop k a @ w @ []" using True by simp
      then show ?thesis using skip_before_literal [OF bf a True, of "[]"]
        by (simp add: match_at_Lit_Group_Plus)
    next
      case False
      then have e: "drop k (a @ w) @ [] = drop (k - length a) w" by simp
      have "prefix w (drop (k - length a) w) \<Longrightarrow> takeWhile p (drop (length w) (drop (k - length a) w)) = []"
        by simp
      then show ?thesis unfolding e by (auto simp: match_at_Lit_Group_Plus)
    qed
  qed
  from finditer_skip [OF this, of pos] show ?thesis by simp
qed

subsection \<open>Joining and splitting\<close>







subsection \<open>Collapsing whitespace and stripping\<close>









subsection \<open>Stripping tag keywords\<close>









section \<open>Macro substitution\<close>





section \<open>Determinism and missing headers\<close>

text \<open>
  Claim C7. The translator is deterministic: the bytes of \<^verbatim>\<open>nanoarrow_c.pxd\<close> depend on
  the input text alone. Take two file systems in which the output file can be opened
  for writing: the build directory exists, neither it nor a directory above it is a
  regular file, the output path is not a directory, and the file may be written. Two runs on the same text, one from
  each file system, both return and leave the same bytes in the file
  (\<^verbatim>\<open>open(..., "wb")\<close> truncates what was there); and a second run on the file system the
  first run left changes nothing.
\<close>

theorem generate_nanoarrow_pxd_deterministic:
  assumes "\<forall>k \<le> length build_dir. fs_contents fs1 (take k build_dir) = None" and "fs_is_dir fs1 build_dir"
    and "\<not> fs_is_dir fs1 (build_dir @ [''nanoarrow_c.pxd''])"
    and "fs_writable fs1 (build_dir @ [''nanoarrow_c.pxd''])"
    and "\<forall>k \<le> length build_dir. fs_contents fs2 (take k build_dir) = None" and "fs_is_dir fs2 build_dir"
    and "\<not> fs_is_dir fs2 (build_dir @ [''nanoarrow_c.pxd''])"
    and "fs_writable fs2 (build_dir @ [''nanoarrow_c.pxd''])"
  shows "\<exists>bytes fs1' fs2'.
      generate_nanoarrow_pxd content build_dir fs1 = Inr fs1'
    \<and> generate_nanoarrow_pxd content build_dir fs2 = Inr fs2'
    \<and> fs_contents fs1' (build_dir @ [''nanoarrow_c.pxd'']) = Some bytes
    \<and> fs_contents fs2' (build_dir @ [''nanoarrow_c.pxd'']) = Some bytes
    \<and> generate_nanoarrow_pxd content build_dir fs1' = Inr fs1'"
proof -
  let ?out = "build_dir @ [''nanoarrow_c.pxd'']"
  from generate_nanoarrow_pxd_result [OF assms(1-4), of content] obtain tds tys fds where
    r: "map_result (\<lambda>t. typdef_to_cython t ''    '') (find_typedefs (preprocess content)) = Inr tds"
       "map_result (\<lambda>t. type_to_cython t ''    '') (find_types (preprocess content)) = Inr tys"
       "map_result (\<lambda>d. func_def_to_cython d ''    '') (find_func_defs (preprocess content)) = Inr fds"
    and g1: "generate_nanoarrow_pxd content build_dir fs1 =
        Inr (fs1\<lparr>fs_contents := (fs_contents fs1)(?out \<mapsto> concat (pxd_writes tys tds fds))\<rparr>)"
    by blast
  let ?bytes = "concat (pxd_writes tys tds fds)"
  let ?fs1' = "fs1\<lparr>fs_contents := (fs_contents fs1)(?out \<mapsto> ?bytes)\<rparr>"
  from generate_nanoarrow_pxd_result [OF assms(5-8), of content] r
  have g2: "generate_nanoarrow_pxd content build_dir fs2 =
        Inr (fs2\<lparr>fs_contents := (fs_contents fs2)(?out \<mapsto> ?bytes)\<rparr>)"
    by auto
  have d: "\<forall>k \<le> length build_dir. fs_contents ?fs1' (take k build_dir) = None"
    "fs_is_dir ?fs1' build_dir"
    "\<not> fs_is_dir ?fs1' ?out" "fs_writable ?fs1' ?out"
  proof -
    have "take k build_dir \<noteq> ?out" for k
    proof
      assume e: "take k build_dir = ?out"
      have "length (take k build_dir) \<le> length build_dir" by simp
      then show False unfolding e by simp
    qed
    then show "\<forall>k \<le> length build_dir. fs_contents ?fs1' (take k build_dir) = None"
      using assms(1) by simp
  qed (use assms(2-4) in simp_all)
  from generate_nanoarrow_pxd_result [OF d, of content] r
  have g3: "generate_nanoarrow_pxd content build_dir ?fs1' = Inr ?fs1'"
    by auto
  show ?thesis
    apply (rule exI [of _ ?bytes])
    apply (rule exI [of _ ?fs1'])
    apply (rule exI [of _ "fs2\<lparr>fs_contents := (fs_contents fs2)(?out \<mapsto> ?bytes)\<rparr>"])
    using g1 g2 g3 by simp
qed

theorem generate_nanoarrow_pxd_deterministic_witness:
  "\<exists>bytes fs1' fs2'.
      generate_nanoarrow_pxd ''typedef int x;'' [''build'']
        \<lparr>fs_contents = (\<lambda>p. None), fs_readable = (\<lambda>p. False),
         fs_is_dir = (\<lambda>p. p = [''build'']), fs_writable = (\<lambda>p. True)\<rparr> = Inr fs1'
    \<and> generate_nanoarrow_pxd ''typedef int x;'' [''build'']
        \<lparr>fs_contents = (\<lambda>p. if p = [''build'', ''nanoarrow_c.pxd''] then Some ''old'' else None),
         fs_readable = (\<lambda>p. True),
         fs_is_dir = (\<lambda>p. p = [''build''] \<or> p = []),
         fs_writable = (\<lambda>p. p = [''build'', ''nanoarrow_c.pxd''])\<rparr> = Inr fs2'
    \<and> fs_contents fs1' ([''build''] @ [''nanoarrow_c.pxd'']) = Some bytes
    \<and> fs_contents fs2' ([''build''] @ [''nanoarrow_c.pxd'']) = Some bytes
    \<and> generate_nanoarrow_pxd ''typedef int x;'' [''build''] fs1' = Inr fs1'"
proof (rule generate_nanoarrow_pxd_deterministic)
  have "take k [''build''] \<noteq> [''build'', ''nanoarrow_c.pxd'']" for k
  proof
    assume e: "take k [''build''] = [''build'', ''nanoarrow_c.pxd'']"
    have "length (take k [''build'']) \<le> length [''build'']" by (simp del: take_Cons')
    then show False unfolding e by simp
  qed
  then show "\<forall>k \<le> length [''build''].
      fs_contents \<lparr>fs_contents = (\<lambda>p. if p = [''build'', ''nanoarrow_c.pxd''] then Some ''old'' else None),
         fs_readable = (\<lambda>p. True),
         fs_is_dir = (\<lambda>p. p = [''build''] \<or> p = []),
         fs_writable = (\<lambda>p. p = [''build'', ''nanoarrow_c.pxd''])\<rparr> (take k [''build'']) = None"
    by simp
qed simp_all

text \<open>
  Claim C8. If one of the four header files is missing or cannot be read, the program
  fails in \<^verbatim>\<open>generate_nanoarrow_c\<close>, before the translator runs: \<^verbatim>\<open>main\<close> ends with that
  exception and the file system is the one it started from, so no output file has been
  written.
\<close>

theorem main_missing_header:
  assumes "file \<in> set files"
    and "fs_contents fs (nanoarrow_dir this_dir @ [file]) = None
         \<or> \<not> fs_readable fs (nanoarrow_dir this_dir @ [file])"
  shows "\<exists>e. generate_nanoarrow_c this_dir fs = Inl e \<and> main this_dir build_dir fs = (Some e, fs)"
proof -
  have "\<exists>e. read_text fs (nanoarrow_dir this_dir @ [file]) = Inl e"
    using assms(2) by (auto simp: read_text_def split: option.splits)
  then obtain e where "map_result (\<lambda>file. read_text fs (nanoarrow_dir this_dir @ [file])) files = Inl e"
    using map_result_fails [OF assms(1), of "\<lambda>file. read_text fs (nanoarrow_dir this_dir @ [file])"]
    by blast
  then have "generate_nanoarrow_c this_dir fs = Inl e" by (simp add: generate_nanoarrow_c_def)
  then show ?thesis by (simp add: main_def)
qed

theorem main_missing_header_witness:
  "''buffer_inline.h'' \<in> set files
   \<and> (\<exists>e. generate_nanoarrow_c [''python'']
        \<lparr>fs_contents = (\<lambda>p. if last p = ''buffer_inline.h'' then None else Some ''int x;''),
         fs_readable = (\<lambda>p. True), fs_is_dir = (\<lambda>p. True),
         fs_writable = (\<lambda>p. True)\<rparr> = Inl e
      \<and> main [''python''] [''build'']
        \<lparr>fs_contents = (\<lambda>p. if last p = ''buffer_inline.h'' then None else Some ''int x;''),
         fs_readable = (\<lambda>p. True), fs_is_dir = (\<lambda>p. True),
         fs_writable = (\<lambda>p. True)\<rparr>
        = (Some e, \<lparr>fs_contents = (\<lambda>p. if last p = ''buffer_inline.h'' then None else Some ''int x;''),
         fs_readable = (\<lambda>p. True), fs_is_dir = (\<lambda>p. True),
         fs_writable = (\<lambda>p. True)\<rparr>))"
proof -
  have f: "''buffer_inline.h'' \<in> set files" by (simp add: files_def)
  show ?thesis
    using f main_missing_header [OF f, of
        "\<lparr>fs_contents = (\<lambda>p. if last p = ''buffer_inline.h'' then None else Some ''int x;''),
         fs_readable = (\<lambda>p. True), fs_is_dir = (\<lambda>p. True),
         fs_writable = (\<lambda>p. True)\<rparr>" "[''python'']" "[''build'']"]
    by simp
qed

section \<open>Extraction raises no exception\<close>

lemma finditer_spans:
  assumes "x \<in> set (finditer r s)"
  shows "m_start x < m_end x \<and> m_end x \<le> length s
         \<and> (\<exists>t. match_at r (drop (m_start x) s) = Some (t, m_groups x) \<and> m_end x = m_start x + length t)"
proof -
  from assms finditer_from_sound [of x r 0 s] obtain m where
    "match_at r (drop (m_start x) s) = Some (m, m_groups x)" "m \<noteq> []"
    "m_end x = m_start x + length m" "m_end x \<le> length s"
    by (auto simp: finditer_def)
  then show ?thesis by auto
qed

lemma concat_pxd_writes:
  "concat (pxd_writes tys tds fds) =
     concat pxd_preamble
     @ concat (map (\<lambda>t. encode t @ [newline, newline]) tys)
     @ concat (map (\<lambda>t. encode t @ [newline]) tds)
     @ [newline]
     @ concat (map (\<lambda>f. encode f @ [newline]) fds)"
proof -
  have 1: "concat (concat (map (\<lambda>t. [encode t, [newline, newline]]) tys))
        = concat (map (\<lambda>t. encode t @ [newline, newline]) tys)"
    by (induction tys) simp_all
  have 2: "\<And>xs. concat (concat (map (\<lambda>t. [encode t, [newline]]) xs))
        = concat (map (\<lambda>t. encode t @ [newline]) xs)"
  proof -
    fix xs show "concat (concat (map (\<lambda>t. [encode t, [newline]]) xs))
        = concat (map (\<lambda>t. encode t @ [newline]) xs)"
      by (induction xs) simp_all
  qed
  show ?thesis unfolding pxd_writes_def by (simp only: concat_append 1 2) simp
qed

text \<open>
  Claim C9. The three extraction passes raise no exception on any text, well-formed C or
  not. Whatever the text, each pass returns a list of records and every record converts
  (the groups the conversions read always took part in the match), one output entry for
  each record. A text that holds no \<^verbatim>\<open>typedef\<close> gives no typedef record, and one that
  holds no \<^verbatim>\<open>Arrow\<close> gives no tagged-type and no prototype record: what does not match
  contributes nothing. The translation of what did match completes: the only exception
  \<^verbatim>\<open>generate_nanoarrow_pxd\<close> can end with is the one raised by opening the output file,
  whatever the text; and where the output file can be opened (the build directory
  exists, neither it nor a directory above it is a regular file, the output path is not
  a directory and the file may be written) it returns.
\<close>

theorem extraction_never_raises:
  "(\<exists>typedefs_cython types_cython func_defs_cython.
       map_result (\<lambda>t. typdef_to_cython t indent) (find_typedefs content) = Inr typedefs_cython
     \<and> length typedefs_cython = length (find_typedefs content)
     \<and> map_result (\<lambda>t. type_to_cython t indent) (find_types content) = Inr types_cython
     \<and> length types_cython = length (find_types content)
     \<and> map_result (\<lambda>d. func_def_to_cython d indent) (find_func_defs content) = Inr func_defs_cython
     \<and> length func_defs_cython = length (find_func_defs content))
   \<and> (\<not> sublist ''typedef'' content \<longrightarrow> find_typedefs content = [])
   \<and> (\<not> sublist ''Arrow'' content \<longrightarrow> find_types content = [] \<and> find_func_defs content = [])
   \<and> (\<forall>e. generate_nanoarrow_pxd content build_dir fs = Inl e
            \<longleftrightarrow> open_wb fs (build_dir @ [''nanoarrow_c.pxd'']) = Inl e)
   \<and> ((\<forall>k \<le> length build_dir. fs_contents fs (take k build_dir) = None)
        \<and> fs_is_dir fs build_dir
        \<and> \<not> fs_is_dir fs (build_dir @ [''nanoarrow_c.pxd''])
        \<and> fs_writable fs (build_dir @ [''nanoarrow_c.pxd''])
      \<longrightarrow> (\<exists>fs'. generate_nanoarrow_pxd content build_dir fs = Inr fs'))"
proof -
  obtain tds where tds: "map_result (\<lambda>t. typdef_to_cython t indent) (find_typedefs content) = Inr tds"
      "length tds = length (find_typedefs content)"
    using map_result_all [of "find_typedefs content" "\<lambda>t. typdef_to_cython t indent"]
      typdef_to_cython_total by blast
  obtain tys where tys: "map_result (\<lambda>t. type_to_cython t indent) (find_types content) = Inr tys"
      "length tys = length (find_types content)"
    using map_result_all [of "find_types content" "\<lambda>t. type_to_cython t indent"]
      type_to_cython_total by blast
  obtain fds where fds: "map_result (\<lambda>d. func_def_to_cython d indent) (find_func_defs content) = Inr fds"
      "length fds = length (find_func_defs content)"
    using map_result_all [of "find_func_defs content" "\<lambda>d. func_def_to_cython d indent"]
      func_def_to_cython_total by blast
  have e: "\<forall>e. generate_nanoarrow_pxd content build_dir fs = Inl e
            \<longleftrightarrow> open_wb fs (build_dir @ [''nanoarrow_c.pxd'']) = Inl e"
    using generate_nanoarrow_pxd_error [of content build_dir fs] by blast
  have g: "(\<forall>k \<le> length build_dir. fs_contents fs (take k build_dir) = None)
        \<and> fs_is_dir fs build_dir
        \<and> \<not> fs_is_dir fs (build_dir @ [''nanoarrow_c.pxd''])
        \<and> fs_writable fs (build_dir @ [''nanoarrow_c.pxd''])
      \<longrightarrow> (\<exists>fs'. generate_nanoarrow_pxd content build_dir fs = Inr fs')"
    using generate_nanoarrow_pxd_result [where fs = fs and build_dir = build_dir and content = content]
    by blast
  from tds tys fds e g no_typedef_no_record [of content] no_Arrow_no_type [of content]
    no_Arrow_no_func_def [of content]
  show ?thesis by blast
qed

text \<open>The theorem at a text that is malformed throughout, and at one where a malformed
  construct is followed by a typedef, a tagged type and a prototype: the first gives no
  record, the second gives one record of each kind and each is translated. With the
  build directory in place the run returns; when the output path is a directory the
  run ends with the exception of \<^verbatim>\<open>open\<close>.\<close>

theorem extraction_never_raises_witness:
  "(\<not> sublist ''typedef'' ''struct { int f(;'' \<and> find_typedefs ''struct { int f(;'' = []
    \<and> \<not> sublist ''Arrow'' ''struct { int f(;''
    \<and> find_types ''struct { int f(;'' = [] \<and> find_func_defs ''struct { int f(;'' = [])
   \<and> (\<exists>typedefs_cython types_cython func_defs_cython.
        map_result (\<lambda>t. typdef_to_cython t ''    '')
          (find_typedefs (''struct { int f(;'' @ [newline] @ ''typedef int x;'' @ [newline]
             @ ''struct ArrowS { int a; };'' @ [newline] @ ''int ArrowF(void);'')) = Inr typedefs_cython
      \<and> length typedefs_cython = 1
      \<and> map_result (\<lambda>t. type_to_cython t ''    '')
          (find_types (''struct { int f(;'' @ [newline] @ ''typedef int x;'' @ [newline]
             @ ''struct ArrowS { int a; };'' @ [newline] @ ''int ArrowF(void);'')) = Inr types_cython
      \<and> length types_cython = 1
      \<and> map_result (\<lambda>d. func_def_to_cython d ''    '')
          (find_func_defs (''struct { int f(;'' @ [newline] @ ''typedef int x;'' @ [newline]
             @ ''struct ArrowS { int a; };'' @ [newline] @ ''int ArrowF(void);'')) = Inr func_defs_cython
      \<and> length func_defs_cython = 1)
   \<and> (\<exists>fs'. generate_nanoarrow_pxd
          (''struct { int f(;'' @ [newline] @ ''typedef int x;'' @ [newline]
             @ ''struct ArrowS { int a; };'' @ [newline] @ ''int ArrowF(void);'') [''build'']
          \<lparr>fs_contents = (\<lambda>p. None), fs_readable = (\<lambda>p. False),
           fs_is_dir = (\<lambda>p. p = [''build'']), fs_writable = (\<lambda>p. True)\<rparr> = Inr fs')
   \<and> generate_nanoarrow_pxd
          (''struct { int f(;'' @ [newline] @ ''typedef int x;'' @ [newline]
             @ ''struct ArrowS { int a; };'' @ [newline] @ ''int ArrowF(void);'') [''build'']
          \<lparr>fs_contents = (\<lambda>p. None), fs_readable = (\<lambda>p. False),
           fs_is_dir = (\<lambda>p. True), fs_writable = (\<lambda>p. True)\<rparr> = Inl IsADirectoryError"
proof -
  let ?t = "''struct { int f(;'' @ [newline] @ ''typedef int x;'' @ [newline]
             @ ''struct ArrowS { int a; };'' @ [newline] @ ''int ArrowF(void);''"
  let ?good = "\<lparr>fs_contents = (\<lambda>p. None), fs_readable = (\<lambda>p. False),
           fs_is_dir = (\<lambda>p. p = [''build'']), fs_writable = (\<lambda>p. True)\<rparr>"
  let ?bad = "\<lparr>fs_contents = (\<lambda>p. None), fs_readable = (\<lambda>p. False),
           fs_is_dir = (\<lambda>p. True), fs_writable = (\<lambda>p. True)\<rparr>"
  have 1: "\<not> sublist ''typedef'' ''struct { int f(;''" by (simp add: sublist_code)
  have 2: "\<not> sublist ''Arrow'' ''struct { int f(;''" by (simp add: sublist_code)
  have 3: "(\<forall>k \<le> length [''build'']. fs_contents ?good (take k [''build'']) = None)
        \<and> fs_is_dir ?good [''build'']
        \<and> \<not> fs_is_dir ?good ([''build''] @ [''nanoarrow_c.pxd''])
        \<and> fs_writable ?good ([''build''] @ [''nanoarrow_c.pxd''])"
    by simp
  have 4: "open_wb ?bad ([''build''] @ [''nanoarrow_c.pxd'']) = Inl IsADirectoryError"
    by (simp add: open_wb_def)
  have 5: "length (find_typedefs ?t) = 1" by code_simp
  have 6: "length (find_types ?t) = 1" by code_simp
  have 7: "length (find_func_defs ?t) = 1" by code_simp
  have a: "\<not> sublist ''typedef'' ''struct { int f(;'' \<and> find_typedefs ''struct { int f(;'' = []
    \<and> \<not> sublist ''Arrow'' ''struct { int f(;''
    \<and> find_types ''struct { int f(;'' = [] \<and> find_func_defs ''struct { int f(;'' = []"
    using 1 2 extraction_never_raises [of "''    ''" "''struct { int f(;''" "[''build'']" ?good]
    by blast
  have b: "\<exists>typedefs_cython types_cython func_defs_cython.
        map_result (\<lambda>t. typdef_to_cython t ''    '') (find_typedefs ?t) = Inr typedefs_cython
      \<and> length typedefs_cython = 1
      \<and> map_result (\<lambda>t. type_to_cython t ''    '') (find_types ?t) = Inr types_cython
      \<and> length types_cython = 1
      \<and> map_result (\<lambda>d. func_def_to_cython d ''    '') (find_func_defs ?t) = Inr func_defs_cython
      \<and> length func_defs_cython = 1"
    using extraction_never_raises [of "''    ''" ?t "[''build'']" ?good] unfolding 5 6 7
    by blast
  have c: "\<exists>fs'. generate_nanoarrow_pxd ?t [''build''] ?good = Inr fs'"
    using 3 extraction_never_raises [of "''    ''" ?t "[''build'']" ?good] by blast
  have d: "generate_nanoarrow_pxd ?t [''build''] ?bad = Inl IsADirectoryError"
    using 4 extraction_never_raises [of "''    ''" ?t "[''build'']" ?bad] by blast
  from a b c d show ?thesis by blast
qed

section \<open>Source order\<close>

text \<open>A substitution whose replacement is at most one character long maps every
  position of its result to a position of its input, in increasing order: a character
  of the result is the input character at that position, or it is the replacement
  of a match that starts there.\<close>

lemma sub_origin:
  assumes t: "\<And>g. length (expand t g) \<le> 1"
  shows "\<exists>f. (\<forall>i < length (sub r t s). f i < length s
             \<and> (sub r t s ! i = s ! f i
                \<or> (\<exists>m g. match_at r (drop (f i) s) = Some (m, g) \<and> m \<noteq> []
                         \<and> expand t g = [sub r t s ! i])))
           \<and> (\<forall>i j. i < j \<longrightarrow> j < length (sub r t s) \<longrightarrow> f i < f j)"
proof (induction s rule: length_induct)
  case (1 s)
  show ?case
  proof (cases s)
    case Nil
    then show ?thesis by simp
  next
    case (Cons c cs)
    consider (skip) "sub r t s = c # sub r t cs"
      | (rep) m g where "match_at r s = Some (m, g)" "m \<noteq> []"
          "sub r t s = expand t g @ sub r t (drop (length m) s)"
    proof (cases "match_at r s")
      case None
      then have "sub r t s = c # sub r t cs" using Cons by simp
      then show ?thesis using skip by blast
    next
      case (Some mg)
      obtain m g where mg: "mg = (m, g)" by (cases mg)
      show ?thesis
      proof (cases "m = []")
        case True
        then have "sub r t s = c # sub r t cs" using Cons Some mg by simp
        then show ?thesis using skip by blast
      next
        case False
        then have "sub r t s = expand t g @ sub r t (drop (length m) s)" using Cons Some mg by simp
        then show ?thesis using rep [of m g] Some mg False by blast
      qed
    qed
    then show ?thesis
    proof cases
      case skip
      from 1 Cons obtain f where
        f1: "\<And>i. i < length (sub r t cs) \<Longrightarrow> f i < length cs
             \<and> (sub r t cs ! i = cs ! f i
                \<or> (\<exists>m g. match_at r (drop (f i) cs) = Some (m, g) \<and> m \<noteq> []
                         \<and> expand t g = [sub r t cs ! i]))"
        and f2: "\<And>i j. i < j \<Longrightarrow> j < length (sub r t cs) \<Longrightarrow> f i < f j"
        by (metis length_Cons lessI)
      let ?f = "\<lambda>i. case i of 0 \<Rightarrow> 0 | Suc k \<Rightarrow> Suc (f k)"
      have a: "?f i < length s
             \<and> (sub r t s ! i = s ! ?f i
                \<or> (\<exists>m g. match_at r (drop (?f i) s) = Some (m, g) \<and> m \<noteq> []
                         \<and> expand t g = [sub r t s ! i]))" if "i < length (sub r t s)" for i
      proof (cases i)
        case 0
        then show ?thesis using Cons skip by simp
      next
        case (Suc k)
        then have "k < length (sub r t cs)" using that skip by simp
        from f1 [OF this] show ?thesis using Suc Cons skip by simp
      qed
      have b: "?f i < ?f j" if "i < j" "j < length (sub r t s)" for i j
      proof -
        from that obtain j' where j: "j = Suc j'" by (cases j) auto
        show ?thesis
        proof (cases i)
          case 0
          then show ?thesis using j by simp
        next
          case (Suc i')
          then have "f i' < f j'" using f2 [of i' j'] that j skip by simp
          then show ?thesis using Suc j by simp
        qed
      qed
      show ?thesis
        apply (rule exI [of _ ?f])
        using a b by blast
    next
      case rep
      let ?n = "length m"
      let ?rest = "drop ?n s"
      have n: "0 < ?n" "?n \<le> length s" using rep(2) match_at_length [OF rep(1)] by auto
      then have "length ?rest < length s" using Cons by simp
      with 1 obtain f where
        f1: "\<And>i. i < length (sub r t ?rest) \<Longrightarrow> f i < length ?rest
             \<and> (sub r t ?rest ! i = ?rest ! f i
                \<or> (\<exists>m g. match_at r (drop (f i) ?rest) = Some (m, g) \<and> m \<noteq> []
                         \<and> expand t g = [sub r t ?rest ! i]))"
        and f2: "\<And>i j. i < j \<Longrightarrow> j < length (sub r t ?rest) \<Longrightarrow> f i < f j"
        by metis
      have f1': "?n + f i < length s
             \<and> (sub r t ?rest ! i = s ! (?n + f i)
                \<or> (\<exists>m g. match_at r (drop (?n + f i) s) = Some (m, g) \<and> m \<noteq> []
                         \<and> expand t g = [sub r t ?rest ! i]))" if "i < length (sub r t ?rest)" for i
      proof -
        from f1 [OF that] have "f i < length s - ?n" by simp
        then have "?n + f i < length s" using n by arith
        then show ?thesis using f1 [OF that] n by (simp add: add.commute)
      qed
      consider (none) "expand t g = []" | (one) x where "expand t g = [x]"
        using t [of g] by (cases "expand t g") auto
      then show ?thesis
      proof cases
        case none
        then have s: "sub r t s = sub r t ?rest" using rep(3) by simp
        show ?thesis
          apply (rule exI [of _ "\<lambda>i. ?n + f i"])
          unfolding s using f1' f2 by auto
      next
        case one
        then have s: "sub r t s = x # sub r t ?rest" using rep(3) by simp
        let ?f = "\<lambda>i. case i of 0 \<Rightarrow> 0 | Suc k \<Rightarrow> ?n + f k"
        have a: "?f i < length s
             \<and> (sub r t s ! i = s ! ?f i
                \<or> (\<exists>m g. match_at r (drop (?f i) s) = Some (m, g) \<and> m \<noteq> []
                         \<and> expand t g = [sub r t s ! i]))" if "i < length (sub r t s)" for i
        proof (cases i)
          case 0
          then show ?thesis using Cons rep(1,2) one s by simp
        next
          case (Suc k)
          then have "k < length (sub r t ?rest)" using that s by simp
          from f1' [OF this] show ?thesis using Suc s by simp
        qed
        have b: "?f i < ?f j" if "i < j" "j < length (sub r t s)" for i j
        proof -
          from that obtain j' where j: "j = Suc j'" by (cases j) auto
          show ?thesis
          proof (cases i)
            case 0
            then show ?thesis using j n by simp
          next
            case (Suc i')
            then have "f i' < f j'" using f2 [of i' j'] that j s by simp
            then show ?thesis using Suc j by simp
          qed
        qed
        show ?thesis
          apply (rule exI [of _ ?f])
          using a b by blast
      qed
    qed
  qed
qed

lemma strip_comments_origin:
  "\<exists>f. (\<forall>i < length (strip_comments s). f i < length s \<and> strip_comments s ! i = s ! f i)
      \<and> (\<forall>i j. i < j \<longrightarrow> j < length (strip_comments s) \<longrightarrow> f i < f j)"
  using sub_origin [of "[]" re_comment s] unfolding strip_comments_def by simp

lemma replace_max_buffers_origin:
  "\<exists>f. (\<forall>i < length (replace_max_buffers s). f i < length s
          \<and> (replace_max_buffers s ! i = s ! f i
             \<or> (replace_max_buffers s ! i = CHR ''3''
                \<and> prefix ''NANOARROW_MAX_FIXED_BUFFERS'' (drop (f i) s))))
      \<and> (\<forall>i j. i < j \<longrightarrow> j < length (replace_max_buffers s) \<longrightarrow> f i < f j)"
proof -
  have e: "expand (plain ''3'') g = ''3''" for g by (simp add: plain_def)
  from sub_origin [of "plain ''3''" re_max_buffers s] obtain f where
    f1: "\<And>i. i < length (replace_max_buffers s) \<Longrightarrow> f i < length s
             \<and> (replace_max_buffers s ! i = s ! f i
                \<or> (\<exists>m g. match_at re_max_buffers (drop (f i) s) = Some (m, g) \<and> m \<noteq> []
                         \<and> expand (plain ''3'') g = [replace_max_buffers s ! i]))"
    and f2: "\<forall>i j. i < j \<longrightarrow> j < length (replace_max_buffers s) \<longrightarrow> f i < f j"
    unfolding replace_max_buffers_def e by auto
  have "f i < length s
          \<and> (replace_max_buffers s ! i = s ! f i
             \<or> (replace_max_buffers s ! i = CHR ''3''
                \<and> prefix ''NANOARROW_MAX_FIXED_BUFFERS'' (drop (f i) s)))"
    if "i < length (replace_max_buffers s)" for i
    using f1 [OF that] unfolding e re_max_buffers_def match_at_Lit
    by (auto split: if_splits)
  with f2 show ?thesis by blast
qed

lemma preprocess_origin:
  "\<exists>origin. (\<forall>i < length (preprocess s). origin i < length s
          \<and> (preprocess s ! i = s ! origin i
             \<or> (preprocess s ! i = CHR ''3'' \<and> s ! origin i = CHR ''N'')))
      \<and> (\<forall>i j. i < j \<longrightarrow> j < length (preprocess s) \<longrightarrow> origin i < origin j)"
proof -
  let ?c = "strip_comments s"
  obtain f where
    f1: "\<And>i. i < length ?c \<Longrightarrow> f i < length s \<and> ?c ! i = s ! f i"
    and f2: "\<And>i j. i < j \<Longrightarrow> j < length ?c \<Longrightarrow> f i < f j"
    using strip_comments_origin [of s] by blast
  obtain h where
    h1: "\<And>i. i < length (preprocess s) \<Longrightarrow> h i < length ?c
          \<and> (preprocess s ! i = ?c ! h i
             \<or> (preprocess s ! i = CHR ''3''
                \<and> prefix ''NANOARROW_MAX_FIXED_BUFFERS'' (drop (h i) ?c)))"
    and h2: "\<And>i j. i < j \<Longrightarrow> j < length (preprocess s) \<Longrightarrow> h i < h j"
    using replace_max_buffers_origin [of ?c] unfolding preprocess_def by blast
  have n: "xs ! k = CHR ''N''" if "prefix ''NANOARROW_MAX_FIXED_BUFFERS'' (drop k xs)" for xs k
  proof -
    from that obtain z where z: "drop k xs = ''NANOARROW_MAX_FIXED_BUFFERS'' @ z"
      by (auto simp: prefix_def)
    then have "k < length xs" by (cases "k < length xs") auto
    then have "xs ! k = hd (drop k xs)" by (simp add: hd_drop_conv_nth)
    then show ?thesis using z by simp
  qed
  have a: "f (h i) < length s
          \<and> (preprocess s ! i = s ! f (h i)
             \<or> (preprocess s ! i = CHR ''3'' \<and> s ! f (h i) = CHR ''N''))"
    if "i < length (preprocess s)" for i
    using h1 [OF that] f1 [of "h i"] n [of "h i" ?c] by auto
  have b: "f (h i) < f (h j)" if "i < j" "j < length (preprocess s)" for i j
    using h2 [OF that] h1 [OF that(2)] f2 [of "h i" "h j"] by simp
  show ?thesis
    apply (rule exI [of _ "\<lambda>i. f (h i)"])
    using a b by blast
qed

lemma finditer_origin_sorted:
  assumes "\<And>i j. i < j \<Longrightarrow> j < length s \<Longrightarrow> (origin :: nat \<Rightarrow> nat) i < origin j"
  shows "sorted_wrt (\<lambda>a b. origin (m_start a) < origin (m_start b)) (finditer r s)"
proof -
  have "origin (m_start a) < origin (m_start b)"
    if "a \<in> set (finditer r s)" "b \<in> set (finditer r s)" "m_end a \<le> m_start b" for a b
  proof -
    from finditer_spans [OF that(1)] finditer_spans [OF that(2)] that(3)
    have "m_start a < m_start b" "m_start b < length s" by auto
    then show ?thesis using assms by simp
  qed
  moreover have "sorted_wrt (\<lambda>a b. m_end a \<le> m_start b) (finditer r s)"
    using finditer_from_sorted by (simp add: finditer_def)
  ultimately show ?thesis
    using sorted_wrt_mono_rel [of "finditer r s" "\<lambda>a b. m_end a \<le> m_start b"
        "\<lambda>a b. origin (m_start a) < origin (m_start b)"] by blast
qed


text \<open>
  Claim C5. Within each kind, declarations are emitted in the order in which their
  matches appear in the Source Text. Where the output file can be opened, the file is
  the preamble, then the tagged types, the typedefs and the prototypes, each list written
  front to back; the i-th entry of a list is the conversion of the i-th match of its
  pattern in the text the extraction scans (the Source Text after comment stripping and
  macro substitution); the matches of a pattern lie one after the other in that text,
  each at the span where the pattern matches there. The scanned text keeps the order of
  the Source Text: there is a strictly increasing map \<open>origin\<close> from its positions to
  positions of the Source Text, under which each character is the Source Text's
  character at its origin, or is the \<^verbatim>\<open>3\<close> written for a macro token whose first letter
  is at its origin; and along the list of matches of each pattern the origin of the
  start of the match increases.
\<close>

theorem declarations_in_source_order:
  assumes "\<forall>k \<le> length build_dir. fs_contents fs (take k build_dir) = None" and "fs_is_dir fs build_dir"
    and "\<not> fs_is_dir fs (build_dir @ [''nanoarrow_c.pxd''])"
    and "fs_writable fs (build_dir @ [''nanoarrow_c.pxd''])"
  shows "\<exists>types_cython typedefs_cython func_defs_cython fs' origin.
      generate_nanoarrow_pxd content build_dir fs = Inr fs'
    \<and> fs_contents fs' (build_dir @ [''nanoarrow_c.pxd'']) =
        Some (concat pxd_preamble
              @ concat (map (\<lambda>t. encode t @ [newline, newline]) types_cython)
              @ concat (map (\<lambda>t. encode t @ [newline]) typedefs_cython)
              @ [newline]
              @ concat (map (\<lambda>f. encode f @ [newline]) func_defs_cython))
    \<and> length types_cython = length (finditer re_type (preprocess content))
    \<and> (\<forall>i < length types_cython.
          type_to_cython (type_groupdict (finditer re_type (preprocess content) ! i)) ''    ''
            = Inr (types_cython ! i))
    \<and> length typedefs_cython = length (finditer re_typedef (preprocess content))
    \<and> (\<forall>i < length typedefs_cython.
          typdef_to_cython (typedef_groupdict (finditer re_typedef (preprocess content) ! i)) ''    ''
            = Inr (typedefs_cython ! i))
    \<and> length func_defs_cython = length (finditer re_func_def (preprocess content))
    \<and> (\<forall>i < length func_defs_cython.
          func_def_to_cython (func_groupdict (finditer re_func_def (preprocess content) ! i)) ''    ''
            = Inr (func_defs_cython ! i))
    \<and> (\<forall>i < length (preprocess content). origin i < length content
          \<and> (preprocess content ! i = content ! origin i
             \<or> (preprocess content ! i = CHR ''3'' \<and> content ! origin i = CHR ''N'')))
    \<and> (\<forall>i j. i < j \<longrightarrow> j < length (preprocess content) \<longrightarrow> origin i < origin j)
    \<and> (\<forall>r \<in> {re_type, re_typedef, re_func_def}.
          sorted_wrt (\<lambda>a b. m_end a \<le> m_start b) (finditer r (preprocess content))
        \<and> sorted_wrt (\<lambda>a b. origin (m_start a) < origin (m_start b)) (finditer r (preprocess content))
        \<and> (\<forall>m \<in> set (finditer r (preprocess content)).
              m_start m < m_end m \<and> m_end m \<le> length (preprocess content)
            \<and> (\<exists>t. match_at r (drop (m_start m) (preprocess content)) = Some (t, m_groups m)
                   \<and> m_end m = m_start m + length t)))"
proof -
  let ?c = "preprocess content"
  let ?out = "build_dir @ [''nanoarrow_c.pxd'']"
  obtain tds where tds: "map_result (\<lambda>t. typdef_to_cython t ''    '') (find_typedefs ?c) = Inr tds"
      "length tds = length (find_typedefs ?c)"
      "\<forall>i < length (find_typedefs ?c). typdef_to_cython (find_typedefs ?c ! i) ''    '' = Inr (tds ! i)"
    using map_result_all [of "find_typedefs ?c" "\<lambda>t. typdef_to_cython t ''    ''"]
      typdef_to_cython_total by blast
  obtain tys where tys: "map_result (\<lambda>t. type_to_cython t ''    '') (find_types ?c) = Inr tys"
      "length tys = length (find_types ?c)"
      "\<forall>i < length (find_types ?c). type_to_cython (find_types ?c ! i) ''    '' = Inr (tys ! i)"
    using map_result_all [of "find_types ?c" "\<lambda>t. type_to_cython t ''    ''"]
      type_to_cython_total by blast
  obtain fds where fds: "map_result (\<lambda>d. func_def_to_cython d ''    '') (find_func_defs ?c) = Inr fds"
      "length fds = length (find_func_defs ?c)"
      "\<forall>i < length (find_func_defs ?c). func_def_to_cython (find_func_defs ?c ! i) ''    '' = Inr (fds ! i)"
    using map_result_all [of "find_func_defs ?c" "\<lambda>d. func_def_to_cython d ''    ''"]
      func_def_to_cython_total by blast
  from generate_nanoarrow_pxd_result [OF assms, of content] tds(1) tys(1) fds(1)
  have g: "generate_nanoarrow_pxd content build_dir fs =
        Inr (fs\<lparr>fs_contents := (fs_contents fs)(?out \<mapsto> concat (pxd_writes tys tds fds))\<rparr>)"
    by auto
  have a: "fs_contents (fs\<lparr>fs_contents := (fs_contents fs)(?out \<mapsto> concat (pxd_writes tys tds fds))\<rparr>) ?out
      = Some (concat pxd_preamble
              @ concat (map (\<lambda>t. encode t @ [newline, newline]) tys)
              @ concat (map (\<lambda>t. encode t @ [newline]) tds)
              @ [newline]
              @ concat (map (\<lambda>f. encode f @ [newline]) fds))"
    by (simp add: concat_pxd_writes)
  have l1: "length tys = length (finditer re_type ?c)" using tys(2) by (simp add: find_types_def)
  have l2: "length tds = length (finditer re_typedef ?c)" using tds(2) by (simp add: find_typedefs_def)
  have l3: "length fds = length (finditer re_func_def ?c)" using fds(2) by (simp add: find_func_defs_def)
  have i1: "\<forall>i < length tys. type_to_cython (type_groupdict (finditer re_type ?c ! i)) ''    '' = Inr (tys ! i)"
    using tys(3) l1 by (simp add: find_types_def)
  have i2: "\<forall>i < length tds. typdef_to_cython (typedef_groupdict (finditer re_typedef ?c ! i)) ''    '' = Inr (tds ! i)"
    using tds(3) l2 by (simp add: find_typedefs_def)
  have i3: "\<forall>i < length fds. func_def_to_cython (func_groupdict (finditer re_func_def ?c ! i)) ''    '' = Inr (fds ! i)"
    using fds(3) l3 by (simp add: find_func_defs_def)
  obtain origin :: "nat \<Rightarrow> nat" where
    p1: "\<forall>i < length ?c. origin i < length content
          \<and> (?c ! i = content ! origin i
             \<or> (?c ! i = CHR ''3'' \<and> content ! origin i = CHR ''N''))"
    and p2: "\<forall>i j. i < j \<longrightarrow> j < length ?c \<longrightarrow> origin i < origin j"
    using preprocess_origin [of content] by blast
  have p3: "sorted_wrt (\<lambda>a b. origin (m_start a) < origin (m_start b)) (finditer r ?c)" for r
    using finditer_origin_sorted [of ?c origin r] p2 by blast
  have o: "\<forall>r \<in> {re_type, re_typedef, re_func_def}.
          sorted_wrt (\<lambda>a b. m_end a \<le> m_start b) (finditer r ?c)
        \<and> sorted_wrt (\<lambda>a b. origin (m_start a) < origin (m_start b)) (finditer r ?c)
        \<and> (\<forall>m \<in> set (finditer r ?c).
              m_start m < m_end m \<and> m_end m \<le> length ?c
            \<and> (\<exists>t. match_at r (drop (m_start m) ?c) = Some (t, m_groups m)
                   \<and> m_end m = m_start m + length t))"
    using finditer_spans finditer_from_sorted p3 by (simp add: finditer_def)
  show ?thesis
    apply (rule exI [of _ tys])
    apply (rule exI [of _ tds])
    apply (rule exI [of _ fds])
    apply (rule exI [of _ "fs\<lparr>fs_contents := (fs_contents fs)(?out \<mapsto> concat (pxd_writes tys tds fds))\<rparr>"])
    apply (rule exI [of _ origin])
    using g a l1 l2 l3 i1 i2 i3 p1 p2 o by blast
qed

theorem declarations_in_source_order_witness:
  "\<exists>types_cython typedefs_cython func_defs_cython fs' origin.
      generate_nanoarrow_pxd (''typedef int a; // first'' @ [newline] @ ''typedef int b[NANOARROW_MAX_FIXED_BUFFERS];'') [''build'']
        \<lparr>fs_contents = (\<lambda>p. None), fs_readable = (\<lambda>p. False),
         fs_is_dir = (\<lambda>p. p = [''build'']), fs_writable = (\<lambda>p. True)\<rparr> = Inr fs'
    \<and> fs_contents fs' ([''build''] @ [''nanoarrow_c.pxd'']) =
        Some (concat pxd_preamble
              @ concat (map (\<lambda>t. encode t @ [newline, newline]) types_cython)
              @ concat (map (\<lambda>t. encode t @ [newline]) typedefs_cython)
              @ [newline]
              @ concat (map (\<lambda>f. encode f @ [newline]) func_defs_cython))
    \<and> length types_cython = length (finditer re_type (preprocess (''typedef int a; // first'' @ [newline] @ ''typedef int b[NANOARROW_MAX_FIXED_BUFFERS];'')))
    \<and> (\<forall>i < length types_cython.
          type_to_cython (type_groupdict (finditer re_type (preprocess (''typedef int a; // first'' @ [newline] @ ''typedef int b[NANOARROW_MAX_FIXED_BUFFERS];'')) ! i)) ''    ''
            = Inr (types_cython ! i))
    \<and> length typedefs_cython = length (finditer re_typedef (preprocess (''typedef int a; // first'' @ [newline] @ ''typedef int b[NANOARROW_MAX_FIXED_BUFFERS];'')))
    \<and> (\<forall>i < length typedefs_cython.
          typdef_to_cython (typedef_groupdict (finditer re_typedef (preprocess (''typedef int a; // first'' @ [newline] @ ''typedef int b[NANOARROW_MAX_FIXED_BUFFERS];'')) ! i)) ''    ''
            = Inr (typedefs_cython ! i))
    \<and> length func_defs_cython = length (finditer re_func_def (preprocess (''typedef int a; // first'' @ [newline] @ ''typedef int b[NANOARROW_MAX_FIXED_BUFFERS];'')))
    \<and> (\<forall>i < length func_defs_cython.
          func_def_to_cython (func_groupdict (finditer re_func_def (preprocess (''typedef int a; // first'' @ [newline] @ ''typedef int b[NANOARROW_MAX_FIXED_BUFFERS];'')) ! i)) ''    ''
            = Inr (func_defs_cython ! i))
    \<and> (\<forall>i < length (preprocess (''typedef int a; // first'' @ [newline] @ ''typedef int b[NANOARROW_MAX_FIXED_BUFFERS];'')). origin i < length (''typedef int a; // first'' @ [newline] @ ''typedef int b[NANOARROW_MAX_FIXED_BUFFERS];'')
          \<and> (preprocess (''typedef int a; // first'' @ [newline] @ ''typedef int b[NANOARROW_MAX_FIXED_BUFFERS];'') ! i = (''typedef int a; // first'' @ [newline] @ ''typedef int b[NANOARROW_MAX_FIXED_BUFFERS];'') ! origin i
             \<or> (preprocess (''typedef int a; // first'' @ [newline] @ ''typedef int b[NANOARROW_MAX_FIXED_BUFFERS];'') ! i = CHR ''3'' \<and> (''typedef int a; // first'' @ [newline] @ ''typedef int b[NANOARROW_MAX_FIXED_BUFFERS];'') ! origin i = CHR ''N'')))
    \<and> (\<forall>i j. i < j \<longrightarrow> j < length (preprocess (''typedef int a; // first'' @ [newline] @ ''typedef int b[NANOARROW_MAX_FIXED_BUFFERS];'')) \<longrightarrow> origin i < origin j)
    \<and> (\<forall>r \<in> {re_type, re_typedef, re_func_def}.
          sorted_wrt (\<lambda>a b. m_end a \<le> m_start b) (finditer r (preprocess (''typedef int a; // first'' @ [newline] @ ''typedef int b[NANOARROW_MAX_FIXED_BUFFERS];'')))
        \<and> sorted_wrt (\<lambda>a b. origin (m_start a) < origin (m_start b)) (finditer r (preprocess (''typedef int a; // first'' @ [newline] @ ''typedef int b[NANOARROW_MAX_FIXED_BUFFERS];'')))
        \<and> (\<forall>m \<in> set (finditer r (preprocess (''typedef int a; // first'' @ [newline] @ ''typedef int b[NANOARROW_MAX_FIXED_BUFFERS];''))).
              m_start m < m_end m \<and> m_end m \<le> length (preprocess (''typedef int a; // first'' @ [newline] @ ''typedef int b[NANOARROW_MAX_FIXED_BUFFERS];''))
            \<and> (\<exists>t. match_at r (drop (m_start m) (preprocess (''typedef int a; // first'' @ [newline] @ ''typedef int b[NANOARROW_MAX_FIXED_BUFFERS];''))) = Some (t, m_groups m)
                   \<and> m_end m = m_start m + length t)))"
  by (rule declarations_in_source_order) simp_all

section \<open>The end-to-end scenario\<close>

lemma scenario_preprocess:
  "preprocess (''typedef int32_t ArrowErrorCode;'' @ [newline]
        @ ''struct ArrowBuffer { uint8_t* data; int64_t size_bytes; };'' @ [newline]
        @ ''ArrowErrorCode ArrowBufferInit(struct ArrowBuffer* buffer);'')
   = ''typedef int32_t ArrowErrorCode;'' @ [newline]
        @ ''struct ArrowBuffer { uint8_t* data; int64_t size_bytes; };'' @ [newline]
        @ ''ArrowErrorCode ArrowBufferInit(struct ArrowBuffer* buffer);''"
  by code_simp

lemma scenario_typedefs:
  "map_result (\<lambda>t. typdef_to_cython t ''    '') (find_typedefs
      (''typedef int32_t ArrowErrorCode;'' @ [newline]
        @ ''struct ArrowBuffer { uint8_t* data; int64_t size_bytes; };'' @ [newline]
        @ ''ArrowErrorCode ArrowBufferInit(struct ArrowBuffer* buffer);''))
   = Inr [''    ctypedef  int32_t ArrowErrorCode'']"
  by code_simp

lemma scenario_types:
  "map_result (\<lambda>t. type_to_cython t ''    '') (find_types
      (''typedef int32_t ArrowErrorCode;'' @ [newline]
        @ ''struct ArrowBuffer { uint8_t* data; int64_t size_bytes; };'' @ [newline]
        @ ''ArrowErrorCode ArrowBufferInit(struct ArrowBuffer* buffer);''))
   = Inr [''    struct ArrowBuffer:'' @ [newline] @ ''        uint8_t* data'' @ [newline]
          @ ''        int64_t size_bytes'']"
  by code_simp

lemma scenario_func_defs:
  "map_result (\<lambda>d. func_def_to_cython d ''    '') (find_func_defs
      (''typedef int32_t ArrowErrorCode;'' @ [newline]
        @ ''struct ArrowBuffer { uint8_t* data; int64_t size_bytes; };'' @ [newline]
        @ ''ArrowErrorCode ArrowBufferInit(struct ArrowBuffer* buffer);''))
   = Inr [''    ArrowErrorCode ArrowBufferInit(ArrowBuffer* buffer)'']"
  by code_simp


text \<open>
  The end-to-end scenario of claim C1, evaluated. The typedef line the translator emits
  is not the one the claim gives: the body of a typedef record starts with the space
  that follows the keyword, and \<^verbatim>\<open>_typdef_to_cython\<close> puts its own space before the body,
  so the line has two spaces after \<^verbatim>\<open>ctypedef\<close> and the claimed line (one space) occurs
  nowhere in it.
\<close>

theorem scenario_typedef_line_counterexample:
  "map_result (\<lambda>t. typdef_to_cython t ''    '') (find_typedefs (preprocess (''typedef int32_t ArrowErrorCode;'' @ [newline]
        @ ''struct ArrowBuffer { uint8_t* data; int64_t size_bytes; };'' @ [newline]
        @ ''ArrowErrorCode ArrowBufferInit(struct ArrowBuffer* buffer);'')))
     = Inr [''    ctypedef  int32_t ArrowErrorCode'']
   \<and> \<not> sublist ''ctypedef int32_t ArrowErrorCode'' ''    ctypedef  int32_t ArrowErrorCode''"
proof -
  have "\<not> sublist ''ctypedef int32_t ArrowErrorCode'' ''    ctypedef  int32_t ArrowErrorCode''"
    by code_simp
  then show ?thesis by (simp only: scenario_preprocess scenario_typedefs) simp
qed

text \<open>
  Claim C1, amended. For the input made of the line \<^verbatim>\<open>typedef int32_t ArrowErrorCode;\<close>,
  the line \<^verbatim>\<open>struct ArrowBuffer { uint8_t* data; int64_t size_bytes; };\<close> and the line
  \<^verbatim>\<open>ArrowErrorCode ArrowBufferInit(struct ArrowBuffer* buffer);\<close>, the translator emits
  the typedef line \<^verbatim>\<open>ctypedef  int32_t ArrowErrorCode\<close> (two spaces after the keyword), a
  \<^verbatim>\<open>struct ArrowBuffer:\<close> block with exactly the member lines \<^verbatim>\<open>uint8_t* data\<close> and
  \<^verbatim>\<open>int64_t size_bytes\<close>, and the function line
  \<^verbatim>\<open>ArrowErrorCode ArrowBufferInit(ArrowBuffer* buffer)\<close>, the \<^verbatim>\<open>struct\<close> keyword stripped
  from the argument. Where the output file can be opened (the build directory exists,
  neither it nor a directory above it is a regular file, the output path is not a
  directory and the file may be written), the run returns and the output file is the preamble followed by these, the
  block first.
\<close>

theorem scenario_output:
  assumes "\<forall>k \<le> length build_dir. fs_contents fs (take k build_dir) = None" and "fs_is_dir fs build_dir"
    and "\<not> fs_is_dir fs (build_dir @ [''nanoarrow_c.pxd''])"
    and "fs_writable fs (build_dir @ [''nanoarrow_c.pxd''])"
  shows "map_result (\<lambda>t. typdef_to_cython t ''    '') (find_typedefs (preprocess (''typedef int32_t ArrowErrorCode;'' @ [newline]
        @ ''struct ArrowBuffer { uint8_t* data; int64_t size_bytes; };'' @ [newline]
        @ ''ArrowErrorCode ArrowBufferInit(struct ArrowBuffer* buffer);'')))
           = Inr [''    ctypedef  int32_t ArrowErrorCode'']
       \<and> map_result (\<lambda>t. type_to_cython t ''    '') (find_types (preprocess (''typedef int32_t ArrowErrorCode;'' @ [newline]
        @ ''struct ArrowBuffer { uint8_t* data; int64_t size_bytes; };'' @ [newline]
        @ ''ArrowErrorCode ArrowBufferInit(struct ArrowBuffer* buffer);'')))
           = Inr [''    struct ArrowBuffer:'' @ [newline] @ ''        uint8_t* data'' @ [newline]
                  @ ''        int64_t size_bytes'']
       \<and> map_result (\<lambda>d. func_def_to_cython d ''    '') (find_func_defs (preprocess (''typedef int32_t ArrowErrorCode;'' @ [newline]
        @ ''struct ArrowBuffer { uint8_t* data; int64_t size_bytes; };'' @ [newline]
        @ ''ArrowErrorCode ArrowBufferInit(struct ArrowBuffer* buffer);'')))
           = Inr [''    ArrowErrorCode ArrowBufferInit(ArrowBuffer* buffer)'']
       \<and> generate_nanoarrow_pxd (''typedef int32_t ArrowErrorCode;'' @ [newline]
        @ ''struct ArrowBuffer { uint8_t* data; int64_t size_bytes; };'' @ [newline]
        @ ''ArrowErrorCode ArrowBufferInit(struct ArrowBuffer* buffer);'') build_dir fs =
           Inr (fs\<lparr>fs_contents := (fs_contents fs)(build_dir @ [''nanoarrow_c.pxd''] \<mapsto>
             concat pxd_preamble
             @ ''    struct ArrowBuffer:'' @ [newline]
             @ ''        uint8_t* data'' @ [newline]
             @ ''        int64_t size_bytes'' @ [newline, newline]
             @ ''    ctypedef  int32_t ArrowErrorCode'' @ [newline]
             @ [newline]
             @ ''    ArrowErrorCode ArrowBufferInit(ArrowBuffer* buffer)'' @ [newline])\<rparr>)"
proof -
  note l = scenario_typedefs scenario_types scenario_func_defs
  from generate_nanoarrow_pxd_result [OF assms, of "(''typedef int32_t ArrowErrorCode;'' @ [newline]
        @ ''struct ArrowBuffer { uint8_t* data; int64_t size_bytes; };'' @ [newline]
        @ ''ArrowErrorCode ArrowBufferInit(struct ArrowBuffer* buffer);'')"]
  have "generate_nanoarrow_pxd (''typedef int32_t ArrowErrorCode;'' @ [newline]
        @ ''struct ArrowBuffer { uint8_t* data; int64_t size_bytes; };'' @ [newline]
        @ ''ArrowErrorCode ArrowBufferInit(struct ArrowBuffer* buffer);'') build_dir fs =
      Inr (fs\<lparr>fs_contents := (fs_contents fs)(build_dir @ [''nanoarrow_c.pxd''] \<mapsto>
        concat (pxd_writes
          [''    struct ArrowBuffer:'' @ [newline] @ ''        uint8_t* data'' @ [newline]
                  @ ''        int64_t size_bytes'']
          [''    ctypedef  int32_t ArrowErrorCode'']
          [''    ArrowErrorCode ArrowBufferInit(ArrowBuffer* buffer)'']))\<rparr>)"
    by (simp only: scenario_preprocess l) auto
  then show ?thesis
    by (simp only: scenario_preprocess l concat_pxd_writes) (simp add: encode_def encode_char_def newline_def)
qed

theorem scenario_output_witness:
  "generate_nanoarrow_pxd (''typedef int32_t ArrowErrorCode;'' @ [newline]
        @ ''struct ArrowBuffer { uint8_t* data; int64_t size_bytes; };'' @ [newline]
        @ ''ArrowErrorCode ArrowBufferInit(struct ArrowBuffer* buffer);'') [''build'']
     \<lparr>fs_contents = (\<lambda>p. None), fs_readable = (\<lambda>p. False),
       fs_is_dir = (\<lambda>p. p = [''build'']), fs_writable = (\<lambda>p. True)\<rparr> =
   Inr (\<lparr>fs_contents = (\<lambda>p. None), fs_readable = (\<lambda>p. False),
       fs_is_dir = (\<lambda>p. p = [''build'']), fs_writable = (\<lambda>p. True)\<rparr>
        \<lparr>fs_contents := (\<lambda>p. None)([''build''] @ [''nanoarrow_c.pxd''] \<mapsto>
             concat pxd_preamble
             @ ''    struct ArrowBuffer:'' @ [newline]
             @ ''        uint8_t* data'' @ [newline]
             @ ''        int64_t size_bytes'' @ [newline, newline]
             @ ''    ctypedef  int32_t ArrowErrorCode'' @ [newline]
             @ [newline]
             @ ''    ArrowErrorCode ArrowBufferInit(ArrowBuffer* buffer)'' @ [newline])\<rparr>)"
  using scenario_output [where build_dir = "[''build'']" and fs = "\<lparr>fs_contents = (\<lambda>p. None), fs_readable = (\<lambda>p. False),
       fs_is_dir = (\<lambda>p. p = [''build'']), fs_writable = (\<lambda>p. True)\<rparr>"]
  by simp

section \<open>The header aggregator\<close>

lemma border_free_include: "border_free (''#include '' @ [dquote])"
  by code_simp

lemma newline_not_in_include: "newline \<notin> set (''#include '' @ [dquote])"
  by (simp add: newline_def dquote_def)

lemma generate_nanoarrow_c_reads:
  assumes "read_text fs (nanoarrow_dir this_dir @ [''nanoarrow_types.h'']) = Inr c1"
    and "read_text fs (nanoarrow_dir this_dir @ [''nanoarrow.h'']) = Inr c2"
    and "read_text fs (nanoarrow_dir this_dir @ [''buffer_inline.h'']) = Inr c3"
    and "read_text fs (nanoarrow_dir this_dir @ [''array_inline.h'']) = Inr c4"
  shows "generate_nanoarrow_c this_dir fs
           = Inr (remove_includes (c1 @ [newline] @ c2 @ [newline] @ c3 @ [newline] @ c4))"
  using assms by (simp add: generate_nanoarrow_c_def files_def)

text \<open>
  The pattern of the aggregator asks for a double quote after \<^verbatim>\<open>#include\<close>: an include
  written with angle brackets does not match and is kept. Here every header starts with
  such a line, and the Source Text still has all four.
\<close>

theorem angle_bracket_include_counterexample:
  "generate_nanoarrow_c [''python'']
     \<lparr>fs_contents = (\<lambda>p. Some (''#include <stdint.h>'' @ [newline] @ ''int x;'')),
      fs_readable = (\<lambda>p. True), fs_is_dir = (\<lambda>p. True),
      fs_writable = (\<lambda>p. True)\<rparr>
   = Inr (''#include <stdint.h>'' @ [newline] @ ''int x;'' @ [newline]
          @ ''#include <stdint.h>'' @ [newline] @ ''int x;'' @ [newline]
          @ ''#include <stdint.h>'' @ [newline] @ ''int x;'' @ [newline]
          @ ''#include <stdint.h>'' @ [newline] @ ''int x;'')"
  by code_simp

text \<open>
  Claim C2, amended. The Header Aggregator returns the contents of the four header
  files, in list order, joined with newlines, after which every occurrence of
  \<^verbatim>\<open>#include "\<close> (the quoted form) is removed together with the rest of its line, the
  newline kept: the text \<open>a\<close> before the first occurrence on a line stays, what follows up
  to the end of the line (or of the text) goes. A line that holds no \<^verbatim>\<open>#include "\<close>, an
  angle-bracket include among them, is left as it is.
\<close>

theorem generate_nanoarrow_c_quoted_includes:
  "(read_text fs (nanoarrow_dir this_dir @ [''nanoarrow_types.h'']) = Inr c1
    \<and> read_text fs (nanoarrow_dir this_dir @ [''nanoarrow.h'']) = Inr c2
    \<and> read_text fs (nanoarrow_dir this_dir @ [''buffer_inline.h'']) = Inr c3
    \<and> read_text fs (nanoarrow_dir this_dir @ [''array_inline.h'']) = Inr c4
    \<longrightarrow> generate_nanoarrow_c this_dir fs
          = Inr (remove_includes (c1 @ [newline] @ c2 @ [newline] @ c3 @ [newline] @ c4)))
   \<and> (newline \<notin> set t \<and> \<not> sublist (''#include '' @ [dquote]) a \<longrightarrow>
         remove_includes (a @ (''#include '' @ [dquote]) @ t @ newline # rest)
           = a @ newline # remove_includes rest
       \<and> remove_includes (a @ (''#include '' @ [dquote]) @ t) = a)
   \<and> (\<not> sublist (''#include '' @ [dquote]) l \<longrightarrow>
         remove_includes (l @ newline # rest) = l @ newline # remove_includes rest
       \<and> remove_includes l = l)"
proof -
  have d: "\<not> dot newline" by (simp add: dot_def not_chr_def)
  have t: "newline \<notin> set t \<Longrightarrow> \<forall>c \<in> set t. dot c" by (auto simp: dot_def not_chr_def)
  have 1: "newline \<notin> set t \<and> \<not> sublist (''#include '' @ [dquote]) a \<longrightarrow>
         remove_includes (a @ (''#include '' @ [dquote]) @ t @ newline # rest)
           = a @ newline # remove_includes rest
       \<and> remove_includes (a @ (''#include '' @ [dquote]) @ t) = a"
    unfolding remove_includes_def re_include_def
    using sub_Lit_Star_cut_line [OF border_free_include _ t d newline_not_in_include, of a rest]
      sub_Lit_Star_cut_end [OF border_free_include _ t, of a]
    by blast
  have 2: "\<not> sublist (''#include '' @ [dquote]) l \<longrightarrow>
         remove_includes (l @ newline # rest) = l @ newline # remove_includes rest
       \<and> remove_includes l = l"
    unfolding remove_includes_def re_include_def
    using sub_Lit_Star_keep_line [OF _ newline_not_in_include, of l dot "[]" rest]
      sub_Lit_Star_keep [of "''#include '' @ [dquote]" l dot "[]"]
    by blast
  from generate_nanoarrow_c_reads [of fs this_dir c1 c2 c3 c4] 1 2 show ?thesis by blast
qed


theorem generate_nanoarrow_c_quoted_includes_witness:
  "generate_nanoarrow_c [''python'']
       \<lparr>fs_contents = (\<lambda>p. Some (''#include '' @ [dquote] @ ''a.h'' @ [dquote])),
        fs_readable = (\<lambda>p. True), fs_is_dir = (\<lambda>p. True),
        fs_writable = (\<lambda>p. True)\<rparr>
     = Inr (remove_includes ((''#include '' @ [dquote] @ ''a.h'' @ [dquote]) @ [newline]
              @ (''#include '' @ [dquote] @ ''a.h'' @ [dquote]) @ [newline]
              @ (''#include '' @ [dquote] @ ''a.h'' @ [dquote]) @ [newline]
              @ (''#include '' @ [dquote] @ ''a.h'' @ [dquote])))
   \<and> remove_includes (''int x; '' @ (''#include '' @ [dquote]) @ (''a.h'' @ [dquote]) @ newline # ''int y;'')
       = ''int x; '' @ newline # remove_includes ''int y;''
   \<and> remove_includes (''#include <stdint.h>'' @ newline # ''int y;'')
       = ''#include <stdint.h>'' @ newline # remove_includes ''int y;''"
proof -
  let ?fs = "\<lparr>fs_contents = (\<lambda>p. Some (''#include '' @ [dquote] @ ''a.h'' @ [dquote])),
        fs_readable = (\<lambda>p. True), fs_is_dir = (\<lambda>p. True),
        fs_writable = (\<lambda>p. True)\<rparr>"
  have r: "\<And>f. read_text ?fs (nanoarrow_dir [''python''] @ [f]) = Inr (''#include '' @ [dquote] @ ''a.h'' @ [dquote])"
    by (simp add: read_text_def)
  have n: "newline \<notin> set (''a.h'' @ [dquote])" by (simp add: newline_def dquote_def)
  have a: "\<not> sublist (''#include '' @ [dquote]) ''int x; ''" by code_simp
  have l: "\<not> sublist (''#include '' @ [dquote]) ''#include <stdint.h>''" by code_simp
  show ?thesis
    using r n a l generate_nanoarrow_c_quoted_includes [of ?fs "[''python'']"
        "''#include '' @ [dquote] @ ''a.h'' @ [dquote]" "''#include '' @ [dquote] @ ''a.h'' @ [dquote]"
        "''#include '' @ [dquote] @ ''a.h'' @ [dquote]" "''#include '' @ [dquote] @ ''a.h'' @ [dquote]"
        "''a.h'' @ [dquote]" "''int x; ''" "''int y;''" "''#include <stdint.h>''"]
    by blast
qed

section \<open>Typedef extraction\<close>

lemma border_free_typedef: "border_free ''typedef''"
  by code_simp

lemma find_typedefs_groups:
  "find_typedefs s = map (\<lambda>g. \<lparr>td_typedef = g 1\<rparr>) (map m_groups (finditer_from re_typedef pos s))"
proof -
  have "find_typedefs s = map (\<lambda>g. \<lparr>td_typedef = g 1\<rparr>) (map m_groups (finditer_from re_typedef 0 s))"
    by (simp add: find_typedefs_def finditer_def typedef_groupdict_def comp_def)
  then show ?thesis using finditer_from_groups [of re_typedef 0 s pos] by simp
qed

lemma re_typedef_unfold: "re_typedef = Seq (Lit ''typedef'') (Group 1 (Plus (not_chr CHR '';'')))"
  by (simp add: re_typedef_def)

lemma find_typedefs_first:
  assumes a: "\<not> sublist ''typedef'' a" and b: "body \<noteq> []" "CHR '';'' \<notin> set body"
  shows "find_typedefs (a @ ''typedef'' @ body @ CHR '';'' # rest)
           = \<lparr>td_typedef = Some body\<rparr> # find_typedefs rest"
    and "find_typedefs (a @ ''typedef'' @ body) = [\<lparr>td_typedef = Some body\<rparr>]"
proof -
  let ?r = "Seq (Lit ''typedef'') (Group 1 (Plus (not_chr CHR '';'')))"
  have p: "\<forall>c \<in> set body. not_chr CHR '';'' c" using b(2) by (auto simp: not_chr_def)
  have z: "CHR '';'' # rest = [] \<or> \<not> not_chr CHR '';'' (hd (CHR '';'' # rest))"
    by (simp add: not_chr_def)
  have nm: "match_at ?r (CHR '';'' # rest) = None" by (simp add: match_at_Lit_Group_Plus)
  have "map m_groups (finditer_from ?r 0 (a @ ''typedef'' @ body @ CHR '';'' # rest))
      = (no_groups(1 \<mapsto> body)) # map m_groups (finditer_from ?r (0 + length a + length (''typedef'' @ body)) (CHR '';'' # rest))"
    using finditer_Lit_Group_Plus_first [OF border_free_typedef a b(1) p z, of 1 0] by simp
  also have "finditer_from ?r (0 + length a + length (''typedef'' @ body)) (CHR '';'' # rest)
      = finditer_from ?r (Suc (0 + length a + length (''typedef'' @ body))) rest"
    using nm by (simp only: finditer_from.simps option.case)
  finally have "map m_groups (finditer_from ?r 0 (a @ ''typedef'' @ body @ CHR '';'' # rest))
      = (no_groups(1 \<mapsto> body)) # map m_groups (finditer_from ?r (Suc (0 + length a + length (''typedef'' @ body))) rest)" .
  then show "find_typedefs (a @ ''typedef'' @ body @ CHR '';'' # rest)
           = \<lparr>td_typedef = Some body\<rparr> # find_typedefs rest"
    unfolding find_typedefs_groups [of "a @ ''typedef'' @ body @ CHR '';'' # rest" 0]
      find_typedefs_groups [of rest "Suc (0 + length a + length (''typedef'' @ body))"]
      re_typedef_unfold
    by simp
  have "map m_groups (finditer_from ?r 0 (a @ ''typedef'' @ body @ [])) = [no_groups(1 \<mapsto> body)]"
    using finditer_Lit_Group_Plus_first [OF border_free_typedef a b(1) p, of "[]" 1 0] by simp
  then show "find_typedefs (a @ ''typedef'' @ body) = [\<lparr>td_typedef = Some body\<rparr>]"
    unfolding find_typedefs_groups [of "a @ ''typedef'' @ body" 0] re_typedef_unfold by simp
qed

lemma find_typedefs_empty_body:
  assumes a: "\<not> sublist ''typedef'' a"
  shows "find_typedefs (a @ ''typedef'' @ CHR '';'' # rest) = find_typedefs rest"
    and "find_typedefs (a @ ''typedef'') = []"
proof -
  let ?r = "Seq (Lit ''typedef'') (Group 1 (Plus (not_chr CHR '';'')))"
  have d: "\<not> not_chr CHR '';'' CHR '';''" "CHR '';'' \<notin> set ''typedef''" by (simp_all add: not_chr_def)
  have "finditer_from ?r 0 (a @ ''typedef'' @ CHR '';'' # rest)
      = finditer_from ?r (0 + length (a @ ''typedef'' @ [CHR '';''])) rest"
    by (rule finditer_Lit_Group_Plus_none [where p = "not_chr CHR '';''" and d = "CHR '';''", OF border_free_typedef a d])
  then show "find_typedefs (a @ ''typedef'' @ CHR '';'' # rest) = find_typedefs rest"
    unfolding find_typedefs_groups [of "a @ ''typedef'' @ CHR '';'' # rest" 0]
      find_typedefs_groups [of rest "0 + length (a @ ''typedef'' @ [CHR '';''])"]
      re_typedef_unfold
    by simp
  have "finditer_from ?r 0 (a @ ''typedef'') = []"
    by (rule finditer_Lit_Group_Plus_end [OF border_free_typedef a])
  then show "find_typedefs (a @ ''typedef'') = []"
    unfolding find_typedefs_groups [of "a @ ''typedef''" 0] re_typedef_unfold by simp
qed

text \<open>
  Not every occurrence of \<^verbatim>\<open>typedef\<close> yields a record. The pattern needs at least one
  character other than \<^verbatim>\<open>;\<close> after the keyword, so \<^verbatim>\<open>typedef;\<close> gives none; and the scan
  resumes after a match, so a second \<^verbatim>\<open>typedef\<close> inside the body of the first gives no
  record of its own.
\<close>

theorem typedef_occurrence_counterexample:
  "sublist ''typedef'' ''typedef;'' \<and> find_typedefs ''typedef;'' = []
   \<and> find_typedefs ''typedef typedef int x;'' = [\<lparr>td_typedef = Some '' typedef int x''\<rparr>]"
  by code_simp

text \<open>
  Claim C10, amended. Typedef extraction applies no library-prefix filter and no word
  boundary. Scanning from the left, the first occurrence of \<^verbatim>\<open>typedef\<close> (whatever stands
  before it, \<open>a\<close>) that is followed by at least one character other than \<^verbatim>\<open>;\<close> yields a
  record whose body is the text that follows, up to the next \<^verbatim>\<open>;\<close> or to the end of the
  text; the scan goes on after that \<^verbatim>\<open>;\<close>. An occurrence followed at once by \<^verbatim>\<open>;\<close> or
  by the end of the text yields no record, and a text without \<^verbatim>\<open>typedef\<close> yields none.
  Each record gives a \<^verbatim>\<open>ctypedef\<close> line, whatever the aliased name.
\<close>

theorem typedef_extraction_unfiltered:
  "(\<not> sublist ''typedef'' a \<and> body \<noteq> [] \<and> CHR '';'' \<notin> set body \<longrightarrow>
       find_typedefs (a @ ''typedef'' @ body @ CHR '';'' # rest)
         = \<lparr>td_typedef = Some body\<rparr> # find_typedefs rest
     \<and> find_typedefs (a @ ''typedef'' @ body) = [\<lparr>td_typedef = Some body\<rparr>]
     \<and> typdef_to_cython \<lparr>td_typedef = Some body\<rparr> indent
         = Inr (indent @ ''ctypedef '' @ strip_tags body))
   \<and> (\<not> sublist ''typedef'' a \<longrightarrow>
       find_typedefs (a @ ''typedef'' @ CHR '';'' # rest) = find_typedefs rest
     \<and> find_typedefs (a @ ''typedef'') = []
     \<and> find_typedefs a = [])"
  using find_typedefs_first(1) [of a body rest] find_typedefs_first(2) [of a body]
    find_typedefs_empty_body(1) [of a rest] find_typedefs_empty_body(2) [of a]
    no_typedef_no_record [of a]
  by (simp add: typdef_to_cython_def)

theorem typedef_extraction_unfiltered_witness:
  "\<not> sublist ''typedef'' ''my'' \<and> '' int my_type'' \<noteq> [] \<and> CHR '';'' \<notin> set '' int my_type''
   \<and> find_typedefs (''my'' @ ''typedef'' @ '' int my_type'' @ CHR '';'' # ''int x;'')
         = \<lparr>td_typedef = Some '' int my_type''\<rparr> # find_typedefs ''int x;''
   \<and> typdef_to_cython \<lparr>td_typedef = Some '' int my_type''\<rparr> ''    ''
         = Inr (''    '' @ ''ctypedef '' @ strip_tags '' int my_type'')
   \<and> strip_tags '' int my_type'' = '' int my_type''
   \<and> find_typedefs (''my'' @ ''typedef'' @ CHR '';'' # ''int x;'') = find_typedefs ''int x;''"
proof -
  have 1: "\<not> sublist ''typedef'' ''my''" by code_simp
  have 2: "'' int my_type'' \<noteq> []" "CHR '';'' \<notin> set '' int my_type''" by simp_all
  have 3: "strip_tags '' int my_type'' = '' int my_type''" by code_simp
  show ?thesis
    using 1 2 3 typedef_extraction_unfiltered [of "''my''" "'' int my_type''" "''int x;''" "''    ''"]
    by blast
qed

section \<open>Tagged-type blocks\<close>





section \<open>Function prototypes\<close>
























end
